theory Spec2Isabelle
  imports Complex_Main
begin

section \<open>Platform constants and process outcomes\<close>

text \<open>
  The error codes that the threads compare against come from the C library
  (\<^verbatim>\<open>errno.h\<close>) and from libavutil (\<^verbatim>\<open>error.h\<close>); neither header is part of
  the repository, so their values are a parameter of the model. The same record
  carries \<^verbatim>\<open>sizeof(float)\<close> and the rounding of the C implementation's
  \<^verbatim>\<open>float\<close> and \<^verbatim>\<open>double\<close> arithmetic.
\<close>

record platform =
  EAGAIN :: int
  EINVAL :: int
  ENOMEM :: int
  AVERROR_EOF :: int
  AVERROR_STREAM_NOT_FOUND :: int
  AVERROR_DECODER_NOT_FOUND :: int
  sizeof_float :: nat
  fround :: "real \<Rightarrow> real"
  dround :: "real \<Rightarrow> real"

text \<open>libavutil's macro \<^verbatim>\<open>AVERROR(e)\<close> negates a (positive) POSIX error number.\<close>

definition AVERROR :: "int \<Rightarrow> int" where
  "AVERROR e = - e"

text \<open>
  IEEE 754 rounding to the nearest number with a significand of \<open>p\<close> bits, ties
  to the even significand. The range of the exponent is not limited: there is
  no overflow to an infinity and there are no subnormal numbers. For the
  magnitudes that occur here (32-bit integers, their quotients, \<open>0.3\<close>) that is
  the rounding of \<^verbatim>\<open>float\<close> (\<open>p = 24\<close>) and \<^verbatim>\<open>double\<close> (\<open>p = 53\<close>).
\<close>

definition round_half_even :: "real \<Rightarrow> int" where
  "round_half_even x =
     (let n = \<lfloor>x\<rfloor>; d = x - of_int n
      in if d < 1 / 2 then n else if 1 / 2 < d then n + 1 else if even n then n else n + 1)"

definition round_to_bits :: "nat \<Rightarrow> real \<Rightarrow> real" where
  "round_to_bits p x =
     (if x = 0 then 0
      else (let u = 2 powr (of_int \<lfloor>log 2 \<bar>x\<bar>\<rfloor> - (of_nat p - 1))
            in of_int (round_half_even (x / u)) * u))"

text \<open>
  Linux on x86-64 with FFmpeg's \<^verbatim>\<open>FFERRTAG\<close> values, used wherever a concrete
  platform is needed.
\<close>

definition linux_amd64 :: platform where
  "linux_amd64 =
     \<lparr>EAGAIN = 11, EINVAL = 22, ENOMEM = 12,
      AVERROR_EOF = - 541478725,
      AVERROR_STREAM_NOT_FOUND = - 1381258232,
      AVERROR_DECODER_NOT_FOUND = - 1128613112,
      sizeof_float = 4,
      fround = round_to_bits 24, dround = round_to_bits 53\<rparr>"

text \<open>
  How a thread (or the process) ends.
  \<^item> \<open>Returned c\<close>: the function returned \<open>c\<close>.
  \<^item> \<open>Exited c\<close>: \<^verbatim>\<open>exit(c)\<close> was called.
  \<^item> \<open>Fatal msg\<close>: \<^verbatim>\<open>pexit(msg)\<close> was called; the process is gone.
  \<^item> \<open>Crashed what\<close>: the code ran into undefined behaviour (a store through
    a null pointer, an index outside an array).
  \<^item> \<open>Blocked\<close>: the thread waits in a dequeue on a queue that stays empty.
  \<^item> \<open>Running\<close>: the environment's answers recorded in the script are used up
    and the loop has not left yet.
\<close>

datatype outcome =
  Returned int | Exited int | Fatal string | Crashed string | Blocked | Running

text \<open>
  Modelled from the spec: \<^verbatim>\<open>pexit_\<close> is declared in helpers.h but its body
  (pexit.c) is missing. Its documentation says it prints the message with file,
  line and \<^verbatim>\<open>perror\<close>, then exits with \<^verbatim>\<open>EXIT_FAILURE\<close>; the spec says a fatal
  error terminates the process with a nonzero exit code after reporting.
\<close>

definition pexit :: "string \<Rightarrow> outcome" where
  "pexit msg = Fatal msg"

text \<open>The values of \<^verbatim>\<open>stdlib.h\<close> on the platforms considered.\<close>

definition EXIT_FAILURE :: int where
  "EXIT_FAILURE = 1"

definition EXIT_SUCCESS :: int where
  "EXIT_SUCCESS = 0"

text \<open>
  The exit status of the process when an outcome ends it in an orderly way:
  \<^verbatim>\<open>pexit\<close> exits with \<^verbatim>\<open>EXIT_FAILURE\<close>, \<^verbatim>\<open>exit(c)\<close> with \<open>c\<close>. A thread that
  returns, blocks or is still running does not end the process, and a crash has
  no exit status of the program's choosing.
\<close>

fun exit_status :: "outcome \<Rightarrow> int option" where
  "exit_status (Fatal msg) = Some EXIT_FAILURE"
| "exit_status (Exited c) = Some c"
| "exit_status oc = None"

text \<open>
  A loop either leaves through \<^verbatim>\<open>break\<close> with its state, or the thread stops
  inside the loop with an outcome.
\<close>

datatype 's loop_exit = Broke 's | Stopped outcome 's

section \<open>Queues\<close>

text \<open>
  Modelled from the spec: the queue implementation (queue.c, io.c) is missing;
  helpers.h declares \<^verbatim>\<open>enqueue\<close>/\<^verbatim>\<open>dequeue\<close> and codec.c calls the same
  operations \<^verbatim>\<open>queue_append\<close>/\<^verbatim>\<open>queue_extract\<close>. The spec: a FIFO of opaque
  payloads; enqueue stores the payload at the rear (a null payload is
  permitted), dequeue returns the payload at the front and blocks while the
  queue is empty.

  A queue is the list of payloads, front first; a null pointer is \<open>None\<close>. A
  stage is run on the whole sequence its producer enqueues, and what it
  enqueues is appended to its output queue; waiting for room in a full queue is
  not modelled. A dequeue on the empty list is the thread blocking for good.
\<close>

definition enqueue :: "'a list \<Rightarrow> 'a \<Rightarrow> 'a list" where
  "enqueue q payload = q @ [payload]"

text \<open>
  Modelled from the spec: \<^verbatim>\<open>dequeue\<close> (queue.c is missing) returns the payload
  at the front, the null sentinel included, and blocks while the queue is empty;
  the result \<open>None\<close> is the thread blocked on the empty queue.
\<close>

definition dequeue :: "'a list \<Rightarrow> ('a \<times> 'a list) option" where
  "dequeue q = (case q of [] \<Rightarrow> None | payload # q' \<Rightarrow> Some (payload, q'))"

text \<open>
  Modelled from the spec: \<^verbatim>\<open>queue_append\<close> and \<^verbatim>\<open>queue_extract\<close> (io.c is
  missing) are the enqueue and the dequeue of the spec under the names that
  codec.c uses.
\<close>

definition queue_append :: "'a list \<Rightarrow> 'a \<Rightarrow> 'a list" where
  "queue_append q payload = q @ [payload]"

text \<open>
  Modelled from the spec: \<^verbatim>\<open>queue_extract\<close> (io.c is missing), the dequeue of the
  spec; \<open>None\<close> is the thread blocked on the empty queue.
\<close>

definition queue_extract :: "'a list \<Rightarrow> ('a \<times> 'a list) option" where
  "queue_extract q = (case q of [] \<Rightarrow> None | payload # q' \<Rightarrow> Some (payload, q'))"

section \<open>The reader (main.c)\<close>

text \<open>
  Of a packet the reader looks at the buffer pointer and the stream index; the
  presentation time stamp tells packets apart.
\<close>

record AVPacket =
  buf :: "nat option"
  stream_index :: int
  pts :: int

datatype AVDiscard =
  AVDISCARD_NONE | AVDISCARD_DEFAULT | AVDISCARD_NONREF | AVDISCARD_BIDIR
  | AVDISCARD_NONINTRA | AVDISCARD_NONKEY | AVDISCARD_ALL

record AVStream =
  discard :: AVDiscard

record AVFormatContext =
  streams :: "AVStream list"

record reader_context =
  filename :: string
  stream_index :: int
  packet_queue :: "AVPacket option list"
  format_ctx :: "AVFormatContext option"

text \<open>
  What the environment answers during one iteration of the reader loop: whether
  \<^verbatim>\<open>malloc\<close> returns a packet, the return value of \<^verbatim>\<open>av_read_frame\<close> and the
  packet it filled in.
\<close>

record read_step =
  malloc_ok :: bool
  ret :: int
  pkt :: AVPacket

fun reader_loop ::
  "platform \<Rightarrow> reader_context \<Rightarrow> read_step list \<Rightarrow> reader_context loop_exit" where
  "reader_loop P r_ctx [] = Stopped Running r_ctx"
| "reader_loop P r_ctx (s # ss) =
     (if \<not> malloc_ok s then Stopped (pexit ''malloc failed'') r_ctx
      else if ret s = AVERROR_EOF P then Broke r_ctx
      else if ret s < 0 then Stopped (pexit ''av_read_frame failed'') r_ctx
      else if buf (pkt s) = None
            \<or> AVPacket.stream_index (pkt s) \<noteq> reader_context.stream_index r_ctx
        then reader_loop P r_ctx ss
      else reader_loop P
             (r_ctx\<lparr>packet_queue := enqueue (packet_queue r_ctx) (Some (pkt s))\<rparr>) ss)"

definition reader_thread ::
  "platform \<Rightarrow> reader_context \<Rightarrow> read_step list \<Rightarrow> outcome \<times> reader_context" where
  "reader_thread P r_ctx script =
     (case reader_loop P r_ctx script of
        Stopped oc r \<Rightarrow> (oc, r)
      | Broke r \<Rightarrow>
          (Returned 0,
           r\<lparr>packet_queue := enqueue (packet_queue r) None, format_ctx := None\<rparr>))"

subsection \<open>Reader initialisation\<close>

text \<open>
  What the libraries answer during \<^verbatim>\<open>reader_init\<close>: whether
  \<^verbatim>\<open>avformat_alloc_context\<close> returns a context, the return value of
  \<^verbatim>\<open>avformat_open_input\<close> and the opened container, the result of
  \<^verbatim>\<open>av_find_best_stream\<close>, the message with which \<^verbatim>\<open>create_queue\<close> gives
  up (if it does), and whether \<^verbatim>\<open>malloc\<close> returns a reader context.
\<close>

record init_env =
  alloc_context_ok :: bool
  open_input_ret :: int
  container :: AVFormatContext
  best_stream :: int
  create_queue_fails :: "string option"
  context_malloc_ok :: bool

text \<open>
  Modelled from the spec: \<^verbatim>\<open>create_queue\<close> is declared in helpers.h only. It
  returns a queue that is ready to use and empty, and calls \<^verbatim>\<open>pexit\<close> when
  it fails.
\<close>

definition create_queue :: "string option \<Rightarrow> int \<Rightarrow> outcome + 'a list" where
  "create_queue fails capacity =
     (case fails of Some msg \<Rightarrow> Inl (pexit msg) | None \<Rightarrow> Inr [])"

definition reader_init ::
  "platform \<Rightarrow> init_env \<Rightarrow> string \<Rightarrow> int \<Rightarrow> outcome + reader_context" where
  "reader_init P env file queue_capacity =
     (if \<not> alloc_context_ok env then Inl (pexit ''avformat_alloc_context failed'')
      else if open_input_ret env < 0 then Inl (pexit ''avformat_open_input failed'')
      else if best_stream env = AVERROR_STREAM_NOT_FOUND P
            \<or> best_stream env = AVERROR_DECODER_NOT_FOUND P
        then Inl (pexit ''video stream or decoder not found'')
      else if best_stream env < 0
            \<or> int (length (streams (container env))) \<le> best_stream env
        then Inl (Crashed ''streams[stream_index] outside the array'')
      else
        (let i = nat (best_stream env);
             fc = (container env)
                    \<lparr>streams := (streams (container env))
                       [i := (streams (container env) ! i)\<lparr>discard := AVDISCARD_DEFAULT\<rparr>]\<rparr>
         in case create_queue (create_queue_fails env) queue_capacity of
              Inl oc \<Rightarrow> Inl oc
            | Inr q \<Rightarrow>
                if \<not> context_malloc_ok env then Inl (pexit ''malloc failed'')
                else Inr \<lparr>filename = file, stream_index = best_stream env,
                          packet_queue = q, format_ctx = Some fc\<rparr>))"

subsection \<open>The main function\<close>

text \<open>
  What the \<^verbatim>\<open>void *\<close> handed to a thread points to: a reader context, or the
  variable that holds the pointer to a reader context.
\<close>

datatype thread_data = Address_of_context reader_context | Address_of_pointer reader_context

text \<open>
  \<^verbatim>\<open>reader_thread\<close> as SDL calls it, on the \<^verbatim>\<open>void *\<close> given to
  \<^verbatim>\<open>SDL_CreateThread\<close>. The cast to \<^verbatim>\<open>reader_context *\<close> keeps the address.
  On the address of a context the thread runs on that context. On the address
  of a pointer variable the first iteration allocates its packet and then
  evaluates \<^verbatim>\<open>r_ctx->format_ctx\<close> for \<^verbatim>\<open>av_read_frame\<close>: a read at the offset
  of the fourth field of the structure, beyond the eight bytes of the variable.
\<close>

definition reader_thread_on ::
  "platform \<Rightarrow> thread_data \<Rightarrow> read_step list \<Rightarrow> outcome \<times> thread_data" where
  "reader_thread_on P ptr script =
     (case ptr of
        Address_of_context r \<Rightarrow>
          (case reader_thread P r script of (oc, r') \<Rightarrow> (oc, Address_of_context r'))
      | Address_of_pointer r \<Rightarrow>
          (case script of
             [] \<Rightarrow> (Running, ptr)
           | s # ss \<Rightarrow>
               if \<not> malloc_ok s then (pexit ''malloc failed'', ptr)
               else (Crashed ''r_ctx->format_ctx read beyond the pointer variable'', ptr)))"

text \<open>
  The environment of \<^verbatim>\<open>main\<close>: the argument count, the lines that
  \<^verbatim>\<open>parse_file_lines\<close> returns for the playlist (the array up to its
  terminating null pointer), what opening each file answers, whether
  \<^verbatim>\<open>SDL_CreateThread\<close> returns a thread, what \<^verbatim>\<open>malloc\<close> and
  \<^verbatim>\<open>av_read_frame\<close> answer the thread started for a file, and the return
  value of \<^verbatim>\<open>SDL_Init\<close>.
\<close>

record main_env =
  argc :: int
  video_files :: "string list"
  on_open :: "string \<Rightarrow> init_env"
  thread_created :: bool
  reads :: "string \<Rightarrow> read_step list"
  sdl_init_ret :: int

text \<open>
  The playlist loop \<^verbatim>\<open>for (i = 0; video_files[i]; i++)\<close>, entered at index
  \<open>i\<close> with the value of the variable \<^verbatim>\<open>r_ctx\<close> (\<open>None\<close> while it has not
  been assigned). The body opens \<^verbatim>\<open>video_files[0]\<close>, starts the thread on
  \<^verbatim>\<open>&r_ctx\<close>, the address of the variable, waits for the thread and ends in
  \<^verbatim>\<open>break\<close>, so no path reaches the increment. The result of
  \<^verbatim>\<open>SDL_CreateThread\<close> is not checked; \<^verbatim>\<open>SDL_WaitThread\<close> returns at once
  when it is given a null thread, and otherwise when the thread function has
  returned.
\<close>

definition playlist_loop ::
  "platform \<Rightarrow> main_env \<Rightarrow> int \<Rightarrow> nat \<Rightarrow> reader_context option
     \<Rightarrow> (reader_context option) loop_exit" where
  "playlist_loop P env queue_capacity i r_ctx =
     (if i < length (video_files env) then
        (let file = video_files env ! 0
         in case reader_init P (on_open env file) file queue_capacity of
              Inl oc \<Rightarrow> Stopped oc r_ctx
            | Inr r \<Rightarrow>
                if \<not> thread_created env then Broke (Some r)
                else
                  (case fst (reader_thread_on P (Address_of_pointer r) (reads env file)) of
                     Returned c \<Rightarrow> Broke (Some r)
                   | Running \<Rightarrow> Stopped Blocked (Some r)
                   | oc \<Rightarrow> Stopped oc (Some r)))
      else Broke r_ctx)"

text \<open>The result is how the process ends and the last value of \<^verbatim>\<open>r_ctx\<close>.\<close>

definition main :: "platform \<Rightarrow> main_env \<Rightarrow> outcome \<times> reader_context option" where
  "main P env =
     (if argc env \<noteq> 2 then (Exited EXIT_FAILURE, None)
      else case playlist_loop P env 32 0 None of
             Stopped oc r_ctx \<Rightarrow> (oc, r_ctx)
           | Broke r_ctx \<Rightarrow>
               if sdl_init_ret env \<noteq> 0 then (pexit ''SDL_Init failed'', r_ctx)
               else (Returned EXIT_SUCCESS, r_ctx))"

section \<open>The codec stages\<close>

subsection \<open>Frames, side data and floating-point values\<close>

text \<open>
  A value of type \<^verbatim>\<open>float\<close>: a finite number, an infinity or a NaN. The sign of
  a zero is not kept.
\<close>

datatype cfloat = Finite real | PlusInf | MinusInf | NaN

text \<open>
  The conversion \<^verbatim>\<open>(float) i\<close> of an \<^verbatim>\<open>int\<close> and of the \<^verbatim>\<open>double\<close> constant
  \<open>c\<close>, and the division of two finite floats, each rounded by the platform.
\<close>

definition float_of_int :: "platform \<Rightarrow> int \<Rightarrow> real" where
  "float_of_int P i = fround P (of_int i)"

definition float_of_double_const :: "platform \<Rightarrow> real \<Rightarrow> real" where
  "float_of_double_const P c = fround P (dround P c)"

definition float_div :: "platform \<Rightarrow> real \<Rightarrow> real \<Rightarrow> cfloat" where
  "float_div P a b =
     (if b = 0 then (if a = 0 then NaN else if 0 < a then PlusInf else MinusInf)
      else Finite (fround P (a / b)))"

text \<open>
  What a side-data pointer refers to: the buffer that
  \<^verbatim>\<open>av_frame_new_side_data\<close> allocated (so many bytes, not yet written) or a
  block of floats.
\<close>

datatype payload = Buffer nat | Floats "cfloat list"

datatype AVFrameSideDataType =
  AV_FRAME_DATA_FOVEATION_DESCRIPTOR | AV_FRAME_DATA_OTHER nat

record AVFrameSideData =
  type :: AVFrameSideDataType
  data :: "payload option"
  size_bytes :: nat

record AVFrame =
  pts :: int
  pict_type :: int
  side_data :: "AVFrameSideData list"

text \<open>
  libavutil's \<^verbatim>\<open>av_frame_new_side_data\<close>: on success the frame has one more
  side-data entry of the given type and size with a fresh buffer, and the
  result points to that entry (here: its index in the frame); on failure the
  result is null.
\<close>

definition av_frame_new_side_data ::
  "bool \<Rightarrow> AVFrame \<Rightarrow> AVFrameSideDataType \<Rightarrow> nat \<Rightarrow> (nat \<times> AVFrame) option" where
  "av_frame_new_side_data ok frame t n =
     (if ok then
        Some (length (side_data frame),
              frame\<lparr>side_data := side_data frame
                       @ [\<lparr>type = t, data = Some (Buffer n), size_bytes = n\<rparr>]\<rparr>)
      else None)"

text \<open>
  A codec context is represented by what has been sent to it so far. What the
  codec answers comes from the script of the run.
\<close>

record 'i AVCodecContext =
  sent :: "'i list"

text \<open>
  What the environment answers during one iteration of a codec loop: the
  return value of the receive call and the unit it delivered, whether the
  allocation of the next container succeeds, and the return value of the send
  call (each used only if the iteration gets there).
\<close>

record 'o codec_step =
  receive_ret :: int
  received :: 'o
  alloc_ok :: bool
  send_ret :: int

subsection \<open>The decoder of codec.c\<close>

record decoder_context =
  packet_queue :: "AVPacket option list"
  frame_queue :: "AVFrame option list"
  avctx :: "AVPacket option AVCodecContext"

text \<open>
  \<^verbatim>\<open>supply_packet\<close> sends the packet and looks at the return value. The
  result is the outcome that ends the process, if any, and the codec context.
\<close>

definition supply_packet ::
  "platform \<Rightarrow> AVPacket option AVCodecContext \<Rightarrow> AVPacket option \<Rightarrow> int
     \<Rightarrow> outcome option \<times> AVPacket option AVCodecContext" where
  "supply_packet P ctx packet send =
     (let ret = send; ctx' = ctx\<lparr>sent := sent ctx @ [packet]\<rparr>
      in if ret = AVERROR (EAGAIN P)
           then (Some (pexit ''API break: decoder send and receive returns EAGAIN''), ctx')
         else if ret = AVERROR_EOF P
           then (Some (pexit ''Decoder has already been flushed''), ctx')
         else if ret = AVERROR (EINVAL P)
           then (Some (pexit ''codec invalid, not open or requires flushing''), ctx')
         else if ret = AVERROR (ENOMEM P)
           then (Some (pexit ''memory allocation failed''), ctx')
         else (None, ctx'))"

text \<open>
  The loop of \<^verbatim>\<open>decoder_thread\<close>. The flag says whether \<^verbatim>\<open>frame\<close> is non-null
  at the head of the loop.
\<close>

fun decoder_loop ::
  "platform \<Rightarrow> bool \<Rightarrow> decoder_context \<Rightarrow> AVFrame codec_step list
     \<Rightarrow> decoder_context loop_exit" where
  "decoder_loop P False dc script = Stopped (pexit ''av_frame_alloc failed'') dc"
| "decoder_loop P True dc [] = Stopped Running dc"
| "decoder_loop P True dc (s # ss) =
     (if receive_ret s = 0 then
        decoder_loop P (alloc_ok s)
          (dc\<lparr>frame_queue := queue_append (frame_queue dc) (Some (received s))\<rparr>) ss
      else if receive_ret s = AVERROR (EAGAIN P) then
        (case queue_extract (decoder_context.packet_queue dc) of
           None \<Rightarrow> Stopped Blocked dc
         | Some (packet, q) \<Rightarrow>
             (case supply_packet P (avctx dc) packet (send_ret s) of
                (Some oc, ctx) \<Rightarrow>
                  Stopped oc (dc\<lparr>decoder_context.packet_queue := q, avctx := ctx\<rparr>)
              | (None, ctx) \<Rightarrow>
                  decoder_loop P True
                    (dc\<lparr>decoder_context.packet_queue := q, avctx := ctx\<rparr>) ss))
      else if receive_ret s = AVERROR_EOF P then Broke dc
      else if receive_ret s = AVERROR (EINVAL P)
        then Stopped (pexit ''avcodec_receive_frame failed'') dc
      else decoder_loop P True dc ss)"

text \<open>\<open>frame0\<close>: whether the first \<^verbatim>\<open>av_frame_alloc\<close> returns a frame.\<close>

definition decoder_thread ::
  "platform \<Rightarrow> bool \<Rightarrow> decoder_context \<Rightarrow> AVFrame codec_step list
     \<Rightarrow> outcome \<times> decoder_context" where
  "decoder_thread P frame0 dc script =
     (case decoder_loop P frame0 dc script of
        Stopped oc d \<Rightarrow> (oc, d)
      | Broke d \<Rightarrow> (Returned 0, d\<lparr>frame_queue := queue_append (frame_queue d) None\<rparr>))"

subsection \<open>The decoder of main.c\<close>

record main_decoder_context =
  stream_index :: int
  packet_queue :: "AVPacket option list"
  frame_queue :: "AVFrame option list"
  format_ctx :: "AVFormatContext option"

text \<open>
  What libavcodec answers during \<^verbatim>\<open>open_decoder\<close>: whether
  \<^verbatim>\<open>avcodec_alloc_context3\<close> returns a context, the return value of
  \<^verbatim>\<open>avcodec_parameters_to_context\<close>, whether \<^verbatim>\<open>avcodec_find_decoder\<close> finds
  a codec, and the return value of \<^verbatim>\<open>avcodec_open2\<close>.
\<close>

record open_env =
  context_alloc_ok :: bool
  parameters_ret :: int
  decoder_found :: bool
  open2_ret :: int

definition open_decoder ::
  "open_env \<Rightarrow> AVFormatContext option \<Rightarrow> int \<Rightarrow> outcome + AVPacket option AVCodecContext" where
  "open_decoder env fmt idx =
     (case fmt of
        None \<Rightarrow> Inl (Crashed ''format_ctx is null'')
      | Some fc \<Rightarrow>
          if idx < 0 \<or> int (length (streams fc)) \<le> idx
            then Inl (Crashed ''streams[stream_index] outside the array'')
          else if \<not> context_alloc_ok env then Inl (pexit ''avcodec_alloc_context3 failed'')
          else if parameters_ret env < 0
            then Inl (pexit ''avcodec_parameters_to_context failed'')
          else if \<not> decoder_found env then Inl (pexit ''avcodec_find_decoder failed'')
          else if open2_ret env < 0 then Inl (pexit ''avcodec_open2 failed'')
          else Inr \<lparr>sent = []\<rparr>)"

definition supply_packet_main ::
  "platform \<Rightarrow> AVPacket option AVCodecContext \<Rightarrow> AVPacket option \<Rightarrow> int
     \<Rightarrow> outcome option \<times> AVPacket option AVCodecContext" where
  "supply_packet_main P ctx packet send =
     (let ret = send; ctx' = ctx\<lparr>sent := sent ctx @ [packet]\<rparr>
      in if ret = AVERROR (EAGAIN P)
           then (Some (pexit ''API break: decoder send and receive returns EAGAIN''), ctx')
         else if ret = AVERROR_EOF P
           then (Some (pexit ''Decoder has already been flushed''), ctx')
         else if ret = AVERROR (EINVAL P)
           then (Some (pexit ''codec invalid, not open or requires flushing''), ctx')
         else if ret = AVERROR (ENOMEM P)
           then (Some (pexit ''memory allocation failed''), ctx')
         else (None, ctx'))"

text \<open>
  The loop of main.c's \<^verbatim>\<open>decoder_thread\<close>; the codec context is a local
  variable of the thread, so it is part of the loop state. Here \<^verbatim>\<open>frame\<close> is
  non-null whenever the head of the loop is reached.
\<close>

fun decoder_loop_main ::
  "platform \<Rightarrow> main_decoder_context \<times> AVPacket option AVCodecContext
     \<Rightarrow> AVFrame codec_step list
     \<Rightarrow> (main_decoder_context \<times> AVPacket option AVCodecContext) loop_exit" where
  "decoder_loop_main P (dec_ctx, ctx) [] = Stopped Running (dec_ctx, ctx)"
| "decoder_loop_main P (dec_ctx, ctx) (s # ss) =
     (if receive_ret s = 0 then
        (let dec_ctx' = dec_ctx\<lparr>main_decoder_context.frame_queue :=
                          enqueue (main_decoder_context.frame_queue dec_ctx)
                            (Some (received s))\<rparr>
         in if \<not> alloc_ok s then Stopped (pexit ''av_frame_alloc failed'') (dec_ctx', ctx)
            else decoder_loop_main P (dec_ctx', ctx) ss)
      else if receive_ret s = AVERROR (EAGAIN P) then
        (case dequeue (main_decoder_context.packet_queue dec_ctx) of
           None \<Rightarrow> Stopped Blocked (dec_ctx, ctx)
         | Some (packet, q) \<Rightarrow>
             (case supply_packet_main P ctx packet (send_ret s) of
                (Some oc, ctx') \<Rightarrow>
                  Stopped oc (dec_ctx\<lparr>main_decoder_context.packet_queue := q\<rparr>, ctx')
              | (None, ctx') \<Rightarrow>
                  decoder_loop_main P
                    (dec_ctx\<lparr>main_decoder_context.packet_queue := q\<rparr>, ctx') ss))
      else if receive_ret s = AVERROR_EOF P then Broke (dec_ctx, ctx)
      else if receive_ret s = AVERROR (EINVAL P)
        then Stopped (pexit ''avcodec_receive_frame failed'') (dec_ctx, ctx)
      else decoder_loop_main P (dec_ctx, ctx) ss)"

text \<open>
  The result also gives the codec context the thread worked with (none if
  \<^verbatim>\<open>open_decoder\<close> did not return one).
\<close>

definition decoder_thread_main ::
  "platform \<Rightarrow> open_env \<Rightarrow> bool \<Rightarrow> main_decoder_context \<Rightarrow> AVFrame codec_step list
     \<Rightarrow> outcome \<times> main_decoder_context \<times> AVPacket option AVCodecContext option" where
  "decoder_thread_main P env frame0 dec_ctx script =
     (case open_decoder env (main_decoder_context.format_ctx dec_ctx)
             (main_decoder_context.stream_index dec_ctx) of
        Inl oc \<Rightarrow> (oc, dec_ctx, None)
      | Inr ctx \<Rightarrow>
          if \<not> frame0 then (pexit ''av_frame_alloc failed'', dec_ctx, Some ctx)
          else
            (case decoder_loop_main P (dec_ctx, ctx) script of
               Stopped oc (d, ctx') \<Rightarrow> (oc, d, Some ctx')
             | Broke (d, ctx') \<Rightarrow>
                 (Returned 0,
                  d\<lparr>main_decoder_context.frame_queue :=
                      enqueue (main_decoder_context.frame_queue d) None\<rparr>,
                  Some ctx')))"

subsection \<open>The gaze provider and the encoder (codec.c)\<close>

text \<open>
  Of the window context (window.h is missing) the code uses the fields
  \<^verbatim>\<open>mouse_x\<close> and \<^verbatim>\<open>mouse_y\<close> and the window handle, which only SDL reads.
\<close>

record window_context =
  mouse_x :: int
  mouse_y :: int

text \<open>
  \<^verbatim>\<open>foveation_descriptor\<close> as compiled without \<^verbatim>\<open>ET\<close>. The environment
  answers the window size, whether \<^verbatim>\<open>malloc\<close> returns the block, and the
  pointer position. The result is the block of four floats and the window
  context with the pointer position stored in it.
\<close>

definition foveation_descriptor ::
  "platform \<Rightarrow> window_context \<Rightarrow> int \<times> int \<Rightarrow> bool \<Rightarrow> int \<times> int
     \<Rightarrow> outcome + (cfloat list \<times> window_context)" where
  "foveation_descriptor P wc window_size malloc_returns mouse_state =
     (let width = fst window_size; height = snd window_size
      in if \<not> malloc_returns then Inl (pexit ''malloc failed'')
         else
           (let wc' = wc\<lparr>mouse_x := fst mouse_state, mouse_y := snd mouse_state\<rparr>;
                f0 = float_div P (float_of_int P (mouse_x wc')) (float_of_int P width);
                f1 = float_div P (float_of_int P (mouse_y wc')) (float_of_int P height);
                f2 = Finite (float_of_double_const P (3 / 10));
                f3 = Finite (float_of_int P 20)
            in Inr ([f0, f1, f2, f3], wc')))"

record encoder_context =
  frame_queue :: "AVFrame option list"
  packet_queue :: "AVPacket option list"
  lag_queue :: "int option list"
  avctx :: "AVFrame AVCodecContext"
  w_ctx :: window_context

text \<open>
  One iteration of the encoder loop can, beyond the codec calls, ask for side
  data, the window size, the descriptor block, the pointer position, the block
  for the time stamp and the time.
\<close>

record enc_step = "AVPacket codec_step" +
  side_data_ok :: bool
  window_size :: "int \<times> int"
  descr_malloc_ok :: bool
  mouse_state :: "int \<times> int"
  timestamp_malloc_ok :: bool
  now :: int

definition supply_frame ::
  "platform \<Rightarrow> AVFrame AVCodecContext \<Rightarrow> AVFrame \<Rightarrow> int
     \<Rightarrow> outcome option \<times> AVFrame AVCodecContext" where
  "supply_frame P ctx frame send =
     (let ret = send; ctx' = ctx\<lparr>sent := sent ctx @ [frame]\<rparr>
      in if ret = AVERROR (EAGAIN P)
           then (Some (pexit ''API break: encoder send and receive returns EAGAIN''), ctx')
         else if ret = AVERROR_EOF P
           then (Some (pexit ''Encoder has already been flushed''), ctx')
         else if ret = AVERROR (EINVAL P)
           then (Some (pexit ''codec invalid, not open or requires flushing''), ctx')
         else if ret = AVERROR (ENOMEM P)
           then (Some (pexit ''memory allocation failed''), ctx')
         else (None, ctx'))"

definition descr_size :: "platform \<Rightarrow> nat" where
  "descr_size P = 4 * sizeof_float P"

text \<open>
  The branch of the encoder loop that has dequeued a frame, up to the end of
  the iteration. Where \<^verbatim>\<open>malloc\<close> returns no block for the time stamp, the code
  calls \<^verbatim>\<open>perror\<close> and goes on to store the time through the null pointer.
\<close>

definition encoder_feed ::
  "platform \<Rightarrow> encoder_context \<Rightarrow> AVFrame \<Rightarrow> enc_step \<Rightarrow> outcome option \<times> encoder_context" where
  "encoder_feed P ec frame s =
     (case av_frame_new_side_data (side_data_ok s) frame
             AV_FRAME_DATA_FOVEATION_DESCRIPTOR (descr_size P) of
        None \<Rightarrow> (Some (pexit ''side data allocation failed''), ec)
      | Some (sd, frame1) \<Rightarrow>
          (case foveation_descriptor P (w_ctx ec) (window_size s) (descr_malloc_ok s)
                  (mouse_state s) of
             Inl oc \<Rightarrow> (Some oc, ec)
           | Inr (descr, wc) \<Rightarrow>
               (let frame2 = frame1\<lparr>side_data := (side_data frame1)
                               [sd := (side_data frame1 ! sd)\<lparr>data := Some (Floats descr)\<rparr>]\<rparr>;
                    frame3 = frame2\<lparr>pict_type := 0\<rparr>;
                    ec1 = ec\<lparr>w_ctx := wc\<rparr>
                in case supply_frame P (encoder_context.avctx ec1) frame3 (send_ret s) of
                     (Some oc, ctx) \<Rightarrow> (Some oc, ec1\<lparr>encoder_context.avctx := ctx\<rparr>)
                   | (None, ctx) \<Rightarrow>
                       (let ec2 = ec1\<lparr>encoder_context.avctx := ctx\<rparr>
                        in if \<not> timestamp_malloc_ok s
                             then (Some (Crashed ''store through the null timestamp''), ec2)
                           else (None, ec2\<lparr>lag_queue :=
                                    queue_append (lag_queue ec2) (Some (now s))\<rparr>)))))"

text \<open>
  The loop of \<^verbatim>\<open>encoder_thread\<close>. The flag says whether \<^verbatim>\<open>packet\<close> is
  non-null at the head of the loop.
\<close>

fun encoder_loop ::
  "platform \<Rightarrow> bool \<Rightarrow> encoder_context \<Rightarrow> enc_step list \<Rightarrow> encoder_context loop_exit" where
  "encoder_loop P False ec script = Stopped (pexit ''av_packet_alloc failed'') ec"
| "encoder_loop P True ec [] = Stopped Running ec"
| "encoder_loop P True ec (s # ss) =
     (if receive_ret s = 0 then
        encoder_loop P (alloc_ok s)
          (ec\<lparr>encoder_context.packet_queue :=
                queue_append (encoder_context.packet_queue ec) (Some (received s))\<rparr>) ss
      else if receive_ret s = AVERROR (EAGAIN P) then
        (case queue_extract (encoder_context.frame_queue ec) of
           None \<Rightarrow> Stopped Blocked ec
         | Some (None, q) \<Rightarrow> Broke (ec\<lparr>encoder_context.frame_queue := q\<rparr>)
         | Some (Some frame, q) \<Rightarrow>
             (case encoder_feed P (ec\<lparr>encoder_context.frame_queue := q\<rparr>) frame s of
                (Some oc, ec') \<Rightarrow> Stopped oc ec'
              | (None, ec') \<Rightarrow> encoder_loop P True ec' ss))
      else if receive_ret s = AVERROR_EOF P then Broke ec
      else if receive_ret s = AVERROR (EINVAL P)
        then Stopped (pexit ''avcodec_receive_packet failed'') ec
      else encoder_loop P True ec ss)"

text \<open>\<open>packet0\<close>: whether the first \<^verbatim>\<open>av_packet_alloc\<close> returns a packet.\<close>

definition encoder_thread ::
  "platform \<Rightarrow> bool \<Rightarrow> encoder_context \<Rightarrow> enc_step list \<Rightarrow> outcome \<times> encoder_context" where
  "encoder_thread P packet0 ec script =
     (case encoder_loop P packet0 ec script of
        Stopped oc e \<Rightarrow> (oc, e)
      | Broke e \<Rightarrow>
          (Returned 0,
           e\<lparr>encoder_context.packet_queue :=
               queue_append (encoder_context.packet_queue e) None\<rparr>))"

section \<open>Predicates and sample inputs used in the statements\<close>

text \<open>The packets that the reader loop does not drop.\<close>

definition kept :: "reader_context \<Rightarrow> AVPacket \<Rightarrow> bool" where
  "kept r p \<longleftrightarrow>
     buf p \<noteq> None \<and> AVPacket.stream_index p = reader_context.stream_index r"

definition mk_packet :: "nat option \<Rightarrow> int \<Rightarrow> int \<Rightarrow> AVPacket" where
  "mk_packet b i t = \<lparr>buf = b, stream_index = i, pts = t\<rparr>"

definition reading :: "int \<Rightarrow> AVPacket \<Rightarrow> read_step" where
  "reading r p = \<lparr>malloc_ok = True, ret = r, pkt = p\<rparr>"

definition reader0 :: reader_context where
  "reader0 =
     \<lparr>filename = ''a.mkv'', stream_index = 0, packet_queue = [],
      format_ctx = Some \<lparr>streams = [\<lparr>discard = AVDISCARD_DEFAULT\<rparr>]\<rparr>\<rparr>"

definition two_streams :: init_env where
  "two_streams =
     \<lparr>alloc_context_ok = True, open_input_ret = 0,
      container = \<lparr>streams = [\<lparr>discard = AVDISCARD_DEFAULT\<rparr>, \<lparr>discard = AVDISCARD_NONE\<rparr>]\<rparr>,
      best_stream = 0, create_queue_fails = None, context_malloc_ok = True\<rparr>"

text \<open>
  A playlist of three files; each of them opens with two streams and holds one
  video packet.
\<close>

definition three_files :: main_env where
  "three_files =
     \<lparr>argc = 2, video_files = [''a.mkv'', ''b.mkv'', ''c.mkv''],
      on_open = (\<lambda>file. two_streams), thread_created = True,
      reads = (\<lambda>file. [reading 0 (mk_packet (Some 1) 0 10),
                        reading (- 541478725) (mk_packet None 0 0)]),
      sdl_init_ret = 0\<rparr>"

text \<open>The state with which a loop ends.\<close>

fun exit_state :: "'s loop_exit \<Rightarrow> 's" where
  "exit_state (Broke s) = s"
| "exit_state (Stopped oc s) = s"

text \<open>
  A frame carries the descriptor: one of its side-data entries has the tag
  \<^verbatim>\<open>AV_FRAME_DATA_FOVEATION_DESCRIPTOR\<close>, the size 16 and a non-null payload
  that is a block of four floats filling 16 bytes.
\<close>

definition carries_descriptor :: "platform \<Rightarrow> AVFrame \<Rightarrow> bool" where
  "carries_descriptor P f \<longleftrightarrow>
     list_ex (\<lambda>sd. type sd = AV_FRAME_DATA_FOVEATION_DESCRIPTOR \<and> size_bytes sd = 16
                \<and> (case data sd of
                      Some (Floats fs) \<Rightarrow> length fs = 4 \<and> length fs * sizeof_float P = 16
                    | _ \<Rightarrow> False))
       (side_data f)"

text \<open>
  The float \<open>c\<close> is the quotient of the integers \<open>a\<close> and \<open>b\<close> as \<^verbatim>\<open>float\<close>
  arithmetic gives it: for a divisor other than 0 a finite number within the
  relative error \<open>1 / 2 ^ 22\<close> of \<open>a / b\<close> (three roundings to 24 bits: of
  \<open>a\<close>, of \<open>b\<close> and of the quotient), for the divisor 0 a NaN or the infinity
  with the sign of \<open>a\<close>.
\<close>

definition approximates_quotient :: "cfloat \<Rightarrow> int \<Rightarrow> int \<Rightarrow> bool" where
  "approximates_quotient c a b \<longleftrightarrow>
     (if b = 0 then c = (if a = 0 then NaN else if 0 < a then PlusInf else MinusInf)
      else (case c of
              Finite y \<Rightarrow> \<bar>y - of_int a / of_int b\<bar> \<le> \<bar>of_int a / of_int b\<bar> / 2 ^ 22
            | _ \<Rightarrow> False))"

text \<open>The four ways in which \<^verbatim>\<open>supply_frame\<close> ends the process.\<close>

definition rejected_by_codec :: "outcome \<Rightarrow> bool" where
  "rejected_by_codec oc \<longleftrightarrow>
     oc = Fatal ''API break: encoder send and receive returns EAGAIN''
     \<or> oc = Fatal ''Encoder has already been flushed''
     \<or> oc = Fatal ''codec invalid, not open or requires flushing''
     \<or> oc = Fatal ''memory allocation failed''"

text \<open>
  The outcomes with which the process ends after a frame has been handed to
  \<^verbatim>\<open>avcodec_send_frame\<close> and before a time stamp for it is in the lag queue:
  the codec has refused the frame and \<^verbatim>\<open>supply_frame\<close> has ended the process,
  or the codec has accepted it and the time is stored through the null pointer
  that \<^verbatim>\<open>malloc\<close> returned.
\<close>

definition ended_before_stamp :: "outcome \<Rightarrow> bool" where
  "ended_before_stamp oc \<longleftrightarrow>
     rejected_by_codec oc \<or> oc = Crashed ''store through the null timestamp''"

definition frame1 :: AVFrame where
  "frame1 = \<lparr>pts = 1, pict_type = 1, side_data = []\<rparr>"

definition encoder0 :: encoder_context where
  "encoder0 =
     \<lparr>frame_queue = [Some frame1, None], packet_queue = [], lag_queue = [],
      avctx = \<lparr>sent = []\<rparr>, w_ctx = \<lparr>mouse_x = 0, mouse_y = 0\<rparr>\<rparr>"

text \<open>
  An iteration in which the encoder asks for input; \<open>r\<close> is the answer to the
  frame sent and \<open>t\<close> whether the block for the time stamp is allocated.
\<close>

definition feeding :: "int \<Rightarrow> bool \<Rightarrow> enc_step" where
  "feeding r t =
     \<lparr>receive_ret = - 11, received = mk_packet None 0 0, alloc_ok = True, send_ret = r,
      side_data_ok = True, window_size = (800, 600), descr_malloc_ok = True,
      mouse_state = (400, 300), timestamp_malloc_ok = t, now = 1000\<rparr>"

text \<open>
  Since the state \<open>ec\<close>, the state \<open>e\<close> has seen frames sent to the codec and
  time stamps appended to the lag queue, the stamps (none of them null) being
  \<open>k\<close> fewer than the frames.
\<close>

definition stamped :: "encoder_context \<Rightarrow> encoder_context \<Rightarrow> nat \<Rightarrow> bool" where
  "stamped ec e k \<longleftrightarrow>
     (\<exists>fs ts. sent (encoder_context.avctx e) = sent (encoder_context.avctx ec) @ fs
             \<and> lag_queue e = lag_queue ec @ map Some ts
             \<and> length fs = length ts + k)"

text \<open>
  The sentinel rule for a stage that started with \<open>q0\<close> in its output queue,
  ended with outcome \<open>oc\<close> and left \<open>q\<close> in the queue: the stage only appended;
  if it returned, what it appended ends with the null sentinel and has no other
  null entry; if it did not return, it appended no null entry.
\<close>

definition sentinel_rule :: "outcome \<Rightarrow> 'a option list \<Rightarrow> 'a option list \<Rightarrow> bool" where
  "sentinel_rule oc q0 q \<longleftrightarrow>
     take (length q0) q = q0
     \<and> (let new = drop (length q0) q
        in if oc = Returned 0 then new \<noteq> [] \<and> last new = None \<and> None \<notin> set (butlast new)
           else None \<notin> set new)"

text \<open>The queue \<open>q\<close> is \<open>q0\<close> with non-null payloads appended.\<close>

definition appended :: "'a option list \<Rightarrow> 'a option list \<Rightarrow> bool" where
  "appended q0 q \<longleftrightarrow> (\<exists>items. q = q0 @ map Some items)"

text \<open>
  What a consumer has done to its input queue, which was \<open>q0\<close> and is \<open>q\<close> now:
  it has dequeued non-null payloads only, or non-null payloads and then the
  null sentinel.
\<close>

definition took_payloads :: "'a option list \<Rightarrow> 'a option list \<Rightarrow> bool" where
  "took_payloads q0 q \<longleftrightarrow> (\<exists>items. q0 = map Some items @ q)"

definition took_sentinel :: "'a option list \<Rightarrow> 'a option list \<Rightarrow> bool" where
  "took_sentinel q0 q \<longleftrightarrow> (\<exists>items. q0 = map Some items @ None # q)"

text \<open>
  Since the input queue was \<open>q0\<close> and the codec had been sent \<open>s0\<close>, items have
  been dequeued and each of them has been sent to the codec, in that order.
\<close>

definition forwarded :: "'a list \<Rightarrow> 'a list \<Rightarrow> 'a list \<Rightarrow> 'a list \<Rightarrow> bool" where
  "forwarded q0 q s0 s \<longleftrightarrow> (\<exists>taken. q0 = taken @ q \<and> s = s0 @ taken)"

text \<open>
  A state of codec.c's decoder loop and a state of main.c's decoder loop show
  the same at the queues and at the codec; two loop exits agree when they are
  of the same kind, with the same outcome, in such states.
\<close>

definition same_view ::
  "decoder_context \<Rightarrow> main_decoder_context \<times> AVPacket option AVCodecContext \<Rightarrow> bool" where
  "same_view dc st \<longleftrightarrow>
     decoder_context.packet_queue dc = main_decoder_context.packet_queue (fst st)
     \<and> decoder_context.frame_queue dc = main_decoder_context.frame_queue (fst st)
     \<and> decoder_context.avctx dc = snd st"

fun exits_agree ::
  "decoder_context loop_exit
     \<Rightarrow> (main_decoder_context \<times> AVPacket option AVCodecContext) loop_exit \<Rightarrow> bool" where
  "exits_agree (Broke d) (Broke st) = same_view d st"
| "exits_agree (Stopped oc d) (Stopped oc' st) = (oc = oc' \<and> same_view d st)"
| "exits_agree x y = False"

definition open_fine :: open_env where
  "open_fine =
     \<lparr>context_alloc_ok = True, parameters_ret = 0, decoder_found = True, open2_ret = 0\<rparr>"

definition main_decoder0 :: main_decoder_context where
  "main_decoder0 =
     \<lparr>main_decoder_context.stream_index = 0,
      main_decoder_context.packet_queue = [Some (mk_packet (Some 1) 0 10), None],
      main_decoder_context.frame_queue = [],
      main_decoder_context.format_ctx = Some \<lparr>streams = [\<lparr>discard = AVDISCARD_DEFAULT\<rparr>]\<rparr>\<rparr>"

definition decoder0 :: decoder_context where
  "decoder0 =
     \<lparr>decoder_context.packet_queue = [Some (mk_packet (Some 1) 0 10), None],
      decoder_context.frame_queue = [], decoder_context.avctx = \<lparr>sent = []\<rparr>\<rparr>"

text \<open>
  An iteration of a decoder loop in which the codec answers the receive call
  with \<open>r\<close> (delivering \<open>frame1\<close> if that is 0) and a send call with \<open>r'\<close>.
\<close>

definition decoding :: "int \<Rightarrow> int \<Rightarrow> AVFrame codec_step" where
  "decoding r r' = \<lparr>receive_ret = r, received = frame1, alloc_ok = True, send_ret = r'\<rparr>"

section \<open>Rounding\<close>

lemma round_half_even_bounds:
  "\<lfloor>x\<rfloor> \<le> round_half_even x" "round_half_even x \<le> \<lfloor>x\<rfloor> + 1"
  by (simp_all add: round_half_even_def Let_def)

lemma round_half_even_of_int [simp]: "round_half_even (of_int n) = n"
  by (simp add: round_half_even_def)

lemma round_half_even_mono:
  assumes "x \<le> y"
  shows "round_half_even x \<le> round_half_even y"
proof (cases "\<lfloor>x\<rfloor> = \<lfloor>y\<rfloor>")
  case True
  with assms have "x - of_int \<lfloor>x\<rfloor> \<le> y - of_int \<lfloor>y\<rfloor>" by simp
  with True show ?thesis
    by (simp add: round_half_even_def Let_def)
next
  case False
  with assms have "\<lfloor>x\<rfloor> < \<lfloor>y\<rfloor>"
    using floor_mono [of x y] by linarith
  with round_half_even_bounds(2) [of x] round_half_even_bounds(1) [of y]
  show ?thesis by linarith
qed

lemma round_half_even_uminus: "round_half_even (- x) = - round_half_even x"
proof (cases "x = of_int \<lfloor>x\<rfloor>")
  case True
  then obtain n where "x = of_int n" ..
  then show ?thesis
    by (simp flip: of_int_minus)
next
  case False
  then have f: "\<lfloor>- x\<rfloor> = - \<lfloor>x\<rfloor> - 1"
    by (simp add: floor_minus ceiling_altdef)
  show ?thesis
    unfolding round_half_even_def Let_def f
    by (simp add: algebra_simps)
qed

lemma binade:
  assumes "0 < x"
  shows "2 powr of_int \<lfloor>log 2 x\<rfloor> \<le> x" and "x < 2 powr (of_int \<lfloor>log 2 x\<rfloor> + 1)"
proof -
  have x: "2 powr log 2 x = x"
    using assms by simp
  have "2 powr of_int \<lfloor>log 2 x\<rfloor> \<le> 2 powr log 2 x"
    by (subst powr_le_cancel_iff) simp_all
  with x show "2 powr of_int \<lfloor>log 2 x\<rfloor> \<le> x" by simp
  have "log 2 x < of_int \<lfloor>log 2 x\<rfloor> + 1" by linarith
  then have "2 powr log 2 x < 2 powr (of_int \<lfloor>log 2 x\<rfloor> + 1)"
    by (subst powr_less_cancel_iff) simp_all
  with x show "x < 2 powr (of_int \<lfloor>log 2 x\<rfloor> + 1)" by simp
qed

lemma round_to_bits_uminus: "round_to_bits p (- x) = - round_to_bits p x"
  by (simp add: round_to_bits_def Let_def round_half_even_uminus)

lemma round_to_bits_pos_bounds:
  assumes "0 < x" and "0 < p"
  shows "2 powr of_int \<lfloor>log 2 x\<rfloor> \<le> round_to_bits p x"
    and "round_to_bits p x \<le> 2 powr (of_int \<lfloor>log 2 x\<rfloor> + 1)"
proof -
  let ?e = "of_int \<lfloor>log 2 x\<rfloor> :: real"
  let ?u = "2 powr (?e - (of_nat p - 1))"
  have u: "0 < ?u" by simp
  have r: "round_to_bits p x = of_int (round_half_even (x / ?u)) * ?u"
    using assms(1) by (simp add: round_to_bits_def Let_def)
  obtain q where p: "p = Suc q"
    using assms(2) by (cases p) simp_all
  have lo: "2 powr ?e / ?u = of_int (2 ^ (p - 1))"
    by (simp add: p powr_diff powr_realpow)
  have hi: "2 powr (?e + 1) / ?u = of_int (2 ^ p)"
    by (simp add: p powr_diff powr_add powr_realpow)
  from binade [OF assms(1)] u
  have s: "2 powr ?e / ?u \<le> x / ?u" "x / ?u \<le> 2 powr (?e + 1) / ?u"
    by (simp_all add: divide_right_mono)
  have "round_half_even (2 powr ?e / ?u) \<le> round_half_even (x / ?u)"
    "round_half_even (x / ?u) \<le> round_half_even (2 powr (?e + 1) / ?u)"
    by (rule round_half_even_mono [OF s(1)], rule round_half_even_mono [OF s(2)])
  then have "(2 powr ?e / ?u) \<le> of_int (round_half_even (x / ?u))"
    "of_int (round_half_even (x / ?u)) \<le> (2 powr (?e + 1) / ?u)"
    unfolding lo hi round_half_even_of_int by simp_all
  with u show "2 powr ?e \<le> round_to_bits p x" "round_to_bits p x \<le> 2 powr (?e + 1)"
    unfolding r by (simp_all add: pos_divide_le_eq pos_le_divide_eq)
qed

lemma round_to_bits_pos:
  assumes "0 < x" and "0 < p"
  shows "0 < round_to_bits p x"
proof -
  have "(0::real) < 2 powr of_int \<lfloor>log 2 x\<rfloor>" by simp
  with round_to_bits_pos_bounds(1) [OF assms] show ?thesis by linarith
qed

lemma round_to_bits_mono_pos:
  assumes "0 < x" and "x \<le> y" and "0 < p"
  shows "round_to_bits p x \<le> round_to_bits p y"
proof -
  from assms have y: "0 < y" by simp
  have le: "\<lfloor>log 2 x\<rfloor> \<le> \<lfloor>log 2 y\<rfloor>"
    using assms(1,2) by (intro floor_mono) simp
  show ?thesis
  proof (cases "\<lfloor>log 2 x\<rfloor> = \<lfloor>log 2 y\<rfloor>")
    case True
    let ?u = "2 powr (of_int \<lfloor>log 2 y\<rfloor> - (of_nat p - 1)) :: real"
    have u: "0 < ?u" by simp
    from assms(2) u have "x / ?u \<le> y / ?u"
      by (simp add: divide_right_mono)
    then have "round_half_even (x / ?u) \<le> round_half_even (y / ?u)"
      by (rule round_half_even_mono)
    then have "of_int (round_half_even (x / ?u)) * ?u \<le> of_int (round_half_even (y / ?u)) * ?u"
      using u by (simp add: mult_right_mono)
    with assms(1) y True show ?thesis
      by (simp add: round_to_bits_def Let_def)
  next
    case False
    with le have "of_int \<lfloor>log 2 x\<rfloor> + 1 \<le> (of_int \<lfloor>log 2 y\<rfloor> :: real)"
      by linarith
    then have "(2::real) powr (of_int \<lfloor>log 2 x\<rfloor> + 1) \<le> 2 powr of_int \<lfloor>log 2 y\<rfloor>"
      by (subst powr_le_cancel_iff) simp_all
    with round_to_bits_pos_bounds(2) [OF assms(1,3)] round_to_bits_pos_bounds(1) [OF y assms(3)]
    show ?thesis by linarith
  qed
qed

lemma round_to_bits_mono:
  assumes "0 < p"
  shows "mono (round_to_bits p)"
proof (rule monoI)
  fix x y :: real
  assume xy: "x \<le> y"
  have zero: "round_to_bits p 0 = 0"
    by (simp add: round_to_bits_def)
  consider (pos) "0 < x" | (neg) "y < 0" | (mid) "x \<le> 0" "0 \<le> y"
    using xy by linarith
  then show "round_to_bits p x \<le> round_to_bits p y"
  proof cases
    case pos
    from round_to_bits_mono_pos [OF pos xy assms] show ?thesis .
  next
    case neg
    with xy have "0 < - y" "- y \<le> - x" by simp_all
    from round_to_bits_mono_pos [OF this assms] show ?thesis
      by (simp add: round_to_bits_uminus)
  next
    case mid
    have "round_to_bits p x \<le> 0"
    proof (cases "x = 0")
      case True
      with zero show ?thesis by simp
    next
      case False
      with mid(1) have "0 < - x" by simp
      from round_to_bits_pos [OF this assms] show ?thesis
        by (simp add: round_to_bits_uminus)
    qed
    moreover have "0 \<le> round_to_bits p y"
    proof (cases "y = 0")
      case True
      with zero show ?thesis by simp
    next
      case False
      with mid(2) have "0 < y" by simp
      from round_to_bits_pos [OF this assms] show ?thesis by simp
    qed
    ultimately show ?thesis by linarith
  qed
qed

lemma round_to_bits_of_nat:
  assumes "n < 2 ^ p"
  shows "round_to_bits p (of_nat n) = of_nat n"
proof (cases "n = 0")
  case True
  then show ?thesis by (simp add: round_to_bits_def)
next
  case False
  then have pos: "(0::real) < of_nat n" by simp
  let ?e = "\<lfloor>log 2 (of_nat n)\<rfloor>"
  have "(1::real) \<le> of_nat n" using False by simp
  then have "0 \<le> log 2 (of_nat n)" by simp
  then have e0: "0 \<le> ?e" by simp
  have "2 powr of_int ?e \<le> (of_nat n :: real)"
    by (rule binade(1) [OF pos])
  also have "\<dots> < 2 ^ p"
    using assms by (metis of_nat_less_iff of_nat_numeral of_nat_power)
  also have "\<dots> = 2 powr of_nat p"
    by (simp add: powr_realpow)
  finally have "of_int ?e < (of_nat p :: real)"
    by (subst (asm) powr_less_cancel_iff) simp_all
  then have ep: "?e < int p" by linarith
  define k where "k = nat (int p - 1 - ?e)"
  have k: "of_int ?e - (of_nat p - 1) = - (of_nat k :: real)"
    using ep by (simp add: k_def)
  have u: "2 powr (of_int ?e - (of_nat p - 1)) = 1 / (2 ^ k :: real)"
    unfolding k by (simp add: powr_minus powr_realpow field_simps)
  have "of_nat n / (1 / (2 ^ k :: real)) = of_int (int n * 2 ^ k)"
    by simp
  then have rhe: "round_half_even (of_nat n / (1 / (2 ^ k :: real))) = int n * 2 ^ k"
    by (simp only: round_half_even_of_int)
  have "round_to_bits p (of_nat n)
      = of_int (round_half_even (of_nat n / (1 / (2 ^ k :: real)))) * (1 / 2 ^ k)"
    using pos by (simp add: round_to_bits_def Let_def u)
  also have "\<dots> = of_int (int n * 2 ^ k) * (1 / 2 ^ k)"
    by (simp only: rhe)
  also have "\<dots> = of_nat n"
    by simp
  finally show ?thesis .
qed

lemma round_to_bits_1:
  assumes "0 < p"
  shows "round_to_bits p 1 = 1"
proof -
  obtain q where p: "p = Suc q"
    using assms by (cases p) simp_all
  have "(0::nat) < 2 ^ q"
    by simp
  then have "(1::nat) < 2 * 2 ^ q"
    by linarith
  then have "(1::nat) < 2 ^ p"
    by (simp only: p power_Suc)
  from round_to_bits_of_nat [OF this] show ?thesis by simp
qed

lemma round_to_bits_numeral:
  "(numeral k :: nat) < 2 ^ p \<Longrightarrow> round_to_bits p (numeral k) = numeral k"
  using round_to_bits_of_nat [of "numeral k" p] by simp

lemma round_to_bits_scale:
  "round_to_bits p (x * 2 powr of_int j) = round_to_bits p x * 2 powr of_int j"
proof (cases "x = 0")
  case True
  then show ?thesis by (simp add: round_to_bits_def)
next
  case False
  define U :: real where "U = 2 powr (of_int \<lfloor>log 2 \<bar>x\<bar>\<rfloor> - (of_nat p - 1))"
  from False have nz: "x * 2 powr of_int j \<noteq> 0" by simp
  from False have "log 2 \<bar>x * 2 powr of_int j\<bar> = log 2 \<bar>x\<bar> + of_int j"
    by (simp add: abs_mult log_mult)
  then have e: "\<lfloor>log 2 \<bar>x * 2 powr of_int j\<bar>\<rfloor> = \<lfloor>log 2 \<bar>x\<bar>\<rfloor> + j"
    by simp
  have "of_int (\<lfloor>log 2 \<bar>x\<bar>\<rfloor> + j) - (of_nat p - 1)
      = (of_int \<lfloor>log 2 \<bar>x\<bar>\<rfloor> - (of_nat p - 1)) + (of_int j :: real)"
    by simp
  then have u: "2 powr (of_int (\<lfloor>log 2 \<bar>x\<bar>\<rfloor> + j) - (of_nat p - 1)) = U * 2 powr of_int j"
    unfolding U_def by (simp only: powr_add)
  have q: "x * 2 powr of_int j / (U * 2 powr of_int j) = x / U"
    by simp
  have "round_to_bits p (x * 2 powr of_int j)
      = of_int (round_half_even (x * 2 powr of_int j / (U * 2 powr of_int j)))
          * (U * 2 powr of_int j)"
    using nz by (simp only: round_to_bits_def Let_def e u if_False)
  also have "\<dots> = of_int (round_half_even (x / U)) * U * 2 powr of_int j"
    by (simp only: q mult.assoc)
  also have "of_int (round_half_even (x / U)) * U = round_to_bits p x"
    using False by (simp only: round_to_bits_def Let_def U_def if_False)
  finally show ?thesis .
qed


lemma two_powr_m1: "(2::real) powr of_int (- 1) = 1 / 2"
  by (simp add: powr_minus_divide)

lemma two_powr_m2: "(2::real) powr of_int (- 2) = 1 / 4"
  by (simp add: powr_minus_divide)

lemma round_to_bits_half:
  assumes "0 < p"
  shows "round_to_bits p (1 / 2) = 1 / 2"
proof -
  have "round_to_bits p (1 * 2 powr of_int (- 1)) = round_to_bits p 1 * 2 powr of_int (- 1)"
    by (rule round_to_bits_scale)
  then show ?thesis
    by (simp only: two_powr_m1 round_to_bits_1 [OF assms] mult_1)
qed

lemma round_to_bits_quarter:
  assumes "0 < p"
  shows "round_to_bits p (1 / 4) = 1 / 4"
proof -
  have "round_to_bits p (1 * 2 powr of_int (- 2)) = round_to_bits p 1 * 2 powr of_int (- 2)"
    by (rule round_to_bits_scale)
  then show ?thesis
    by (simp only: two_powr_m2 round_to_bits_1 [OF assms] mult_1)
qed

lemma round_to_bits_0: "round_to_bits p 0 = 0"
  by (simp add: round_to_bits_def)

lemmas rounding_exact =
  round_to_bits_0 round_to_bits_1 round_to_bits_numeral round_to_bits_half
  round_to_bits_quarter

text \<open>
  The error of the rounding: at most half a unit in the last place, which is
  at most \<open>\<bar>x\<bar> / 2 ^ p\<close>; and the value of the rounding for a number whose
  binade is known, with which the two roundings of \<open>0.3\<close> are computed.
\<close>

lemma round_half_even_error: "\<bar>of_int (round_half_even y) - y\<bar> \<le> 1 / 2"
proof -
  have "of_int \<lfloor>y\<rfloor> \<le> y" "y < of_int \<lfloor>y\<rfloor> + 1"
    by linarith+
  then show ?thesis
    by (auto simp: round_half_even_def Let_def)
qed

lemma round_to_bits_error_pos:
  assumes "0 < x" and "0 < p"
  shows "\<bar>round_to_bits p x - x\<bar> \<le> x / 2 ^ p"
proof -
  let ?e = "of_int \<lfloor>log 2 x\<rfloor> :: real"
  let ?u = "2 powr (?e - (of_nat p - 1))"
  have u: "0 < ?u" by simp
  have r: "round_to_bits p x = of_int (round_half_even (x / ?u)) * ?u"
    using assms(1) by (simp add: round_to_bits_def Let_def)
  obtain q where p: "p = Suc q"
    using assms(2) by (cases p) simp_all
  have half: "?u / 2 = 2 powr ?e / 2 ^ p"
    by (simp add: p powr_diff powr_realpow)
  have "round_to_bits p x - x = (of_int (round_half_even (x / ?u)) - x / ?u) * ?u"
    unfolding r using u by (simp add: algebra_simps)
  then have "\<bar>round_to_bits p x - x\<bar> = \<bar>of_int (round_half_even (x / ?u)) - x / ?u\<bar> * ?u"
    using u by (simp add: abs_mult)
  also have "\<dots> \<le> (1 / 2) * ?u"
    by (rule mult_right_mono [OF round_half_even_error]) simp
  also have "\<dots> = 2 powr ?e / 2 ^ p"
    using half by simp
  also have "\<dots> \<le> x / 2 ^ p"
    by (rule divide_right_mono [OF binade(1) [OF assms(1)]]) simp
  finally show ?thesis .
qed

lemma round_to_bits_error:
  assumes "0 < p"
  shows "\<bar>round_to_bits p x - x\<bar> \<le> \<bar>x\<bar> / 2 ^ p"
proof -
  consider (zero) "x = 0" | (pos) "0 < x" | (neg) "x < 0" by linarith
  then show ?thesis
  proof cases
    case zero
    then show ?thesis by (simp add: round_to_bits_def)
  next
    case pos
    with round_to_bits_error_pos [OF pos assms] show ?thesis by simp
  next
    case neg
    then have "0 < - x" by simp
    from round_to_bits_error_pos [OF this assms]
    have "\<bar>- round_to_bits p x + x\<bar> \<le> - x / 2 ^ p"
      by (simp add: round_to_bits_uminus)
    moreover have "\<bar>- round_to_bits p x + x\<bar> = \<bar>round_to_bits p x - x\<bar>"
      by linarith
    ultimately show ?thesis using neg by simp
  qed
qed

lemma round_to_bits_in_binade:
  assumes "2 powr of_int e \<le> x" and "x < 2 powr (of_int e + 1)"
  shows "round_to_bits p x
       = of_int (round_half_even (x / 2 powr (of_int e - (of_nat p - 1))))
         * 2 powr (of_int e - (of_nat p - 1))"
proof -
  have "(0::real) < 2 powr of_int e" by simp
  with assms(1) have pos: "0 < x" by linarith
  have "of_int e \<le> log 2 x"
    using assms(1) pos by (simp add: le_log_iff)
  moreover have "log 2 x < of_int e + 1"
    using assms(2) pos by (simp add: log_less_iff)
  ultimately have "\<lfloor>log 2 x\<rfloor> = e"
    by linarith
  with pos show ?thesis
    by (simp add: round_to_bits_def Let_def)
qed

lemma double_of_three_tenths:
  "round_to_bits 53 (3 / 10) = 5404319552844595 / 18014398509481984"
proof -
  have b: "2 powr of_int (- 2) \<le> (3 / 10 :: real)" "(3 / 10 :: real) < 2 powr (of_int (- 2) + 1)"
    by (simp_all add: powr_minus_divide)
  have u: "2 powr (of_int (- 2) - (of_nat 53 - 1)) = (1 / 18014398509481984 :: real)"
    by (simp add: powr_minus_divide)
  have "round_half_even ((3 / 10) / (1 / 18014398509481984)) = 5404319552844595"
    by (simp add: round_half_even_def Let_def)
  with round_to_bits_in_binade [OF b, of 53] show ?thesis
    unfolding u by simp
qed

lemma float_of_double_of_three_tenths:
  "round_to_bits 24 (5404319552844595 / 18014398509481984) = 5033165 / 16777216"
proof -
  have b: "2 powr of_int (- 2) \<le> (5404319552844595 / 18014398509481984 :: real)"
    "(5404319552844595 / 18014398509481984 :: real) < 2 powr (of_int (- 2) + 1)"
    by (simp_all add: powr_minus_divide)
  have u: "2 powr (of_int (- 2) - (of_nat 24 - 1)) = (1 / 33554432 :: real)"
    by (simp add: powr_minus_divide)
  have "round_half_even ((5404319552844595 / 18014398509481984) / (1 / 33554432)) = 10066330"
    by (simp add: round_half_even_def Let_def)
  with round_to_bits_in_binade [OF b, of 24] show ?thesis
    unfolding u by simp
qed

section \<open>The reader loop\<close>

lemma reader_loop_reads:
  "\<forall>s \<in> set steps. malloc_ok s \<and> ret s \<noteq> AVERROR_EOF P \<and> \<not> ret s < 0 \<Longrightarrow>
   reader_loop P r (steps @ rest) =
   reader_loop P
     (r\<lparr>reader_context.packet_queue :=
          reader_context.packet_queue r @ map Some (filter (kept r) (map pkt steps))\<rparr>) rest"
proof (induction steps arbitrary: r)
  case Nil
  then show ?case by simp
next
  case (Cons s steps)
  then show ?case
    by (simp add: enqueue_def kept_def)
qed

text \<open>
  C4. A run of the reader that reads the packets \<open>steps\<close> without failure and
  then gets the answer \<open>e\<close>: if \<open>e\<close> is end-of-stream, the thread returns and the
  packet queue has received, in file order, exactly the packets that have a
  buffer and the selected stream index, followed by the null sentinel; if \<open>e\<close>
  is another negative return value, the process ends in \<^verbatim>\<open>pexit\<close> and the queue
  has received those packets and no sentinel. Packets without a buffer or of
  another stream are never enqueued.
\<close>

theorem reader_thread_file_order:
  assumes "\<forall>s \<in> set steps. malloc_ok s \<and> ret s \<noteq> AVERROR_EOF P \<and> \<not> ret s < 0"
    and "malloc_ok e"
  shows "(ret e = AVERROR_EOF P \<longrightarrow>
            reader_thread P r (steps @ e # rest) =
              (Returned 0,
               r\<lparr>reader_context.packet_queue :=
                    reader_context.packet_queue r
                      @ map Some (filter (kept r) (map pkt steps)) @ [None],
                 reader_context.format_ctx := None\<rparr>))
       \<and> (ret e \<noteq> AVERROR_EOF P \<and> ret e < 0 \<longrightarrow>
            reader_thread P r (steps @ e # rest) =
              (Fatal ''av_read_frame failed'',
               r\<lparr>reader_context.packet_queue :=
                    reader_context.packet_queue r
                      @ map Some (filter (kept r) (map pkt steps))\<rparr>))"
  using assms
  by (simp add: reader_thread_def reader_loop_reads enqueue_def pexit_def)

theorem reader_thread_file_order_witness:
  "reader_thread linux_amd64 reader0
     [reading 0 (mk_packet (Some 1) 0 10), reading 0 (mk_packet (Some 2) 1 11),
      reading 0 (mk_packet None 0 12), reading 0 (mk_packet (Some 3) 0 13),
      reading (- 541478725) (mk_packet None 0 0)]
   = (Returned 0,
      reader0\<lparr>reader_context.packet_queue :=
                [Some (mk_packet (Some 1) 0 10), Some (mk_packet (Some 3) 0 13), None],
              reader_context.format_ctx := None\<rparr>)
   \<and> reader_thread linux_amd64 reader0
     [reading 0 (mk_packet (Some 1) 0 10), reading (- 5) (mk_packet None 0 0)]
   = (Fatal ''av_read_frame failed'',
      reader0\<lparr>reader_context.packet_queue := [Some (mk_packet (Some 1) 0 10)]\<rparr>)"
  using reader_thread_file_order
      [of "[reading 0 (mk_packet (Some 1) 0 10), reading 0 (mk_packet (Some 2) 1 11),
            reading 0 (mk_packet None 0 12), reading 0 (mk_packet (Some 3) 0 13)]"
          linux_amd64 "reading (- 541478725) (mk_packet None 0 0)" reader0 "[]"]
    reader_thread_file_order
      [of "[reading 0 (mk_packet (Some 1) 0 10)]"
          linux_amd64 "reading (- 5) (mk_packet None 0 0)" reader0 "[]"]
  by (simp add: reading_def mk_packet_def linux_amd64_def reader0_def kept_def)

section \<open>Reader initialisation and the playlist loop\<close>

text \<open>
  C5, as the spec states it, fails: a container with a video stream and a second
  stream whose discard flag is \<^verbatim>\<open>AVDISCARD_NONE\<close>. After \<^verbatim>\<open>reader_init\<close> the
  second stream still has \<^verbatim>\<open>AVDISCARD_NONE\<close>; it is not marked as discarded.
\<close>

theorem reader_init_other_stream_counterexample:
  "reader_init linux_amd64 two_streams ''a.mkv'' 32 =
     Inr \<lparr>filename = ''a.mkv'', stream_index = 0, packet_queue = [],
          format_ctx = Some \<lparr>streams = [\<lparr>discard = AVDISCARD_DEFAULT\<rparr>,
                                          \<lparr>discard = AVDISCARD_NONE\<rparr>]\<rparr>\<rparr>
   \<and> AVDISCARD_NONE \<noteq> AVDISCARD_ALL"
  by (simp add: reader_init_def two_streams_def linux_amd64_def create_queue_def)

text \<open>
  C5, amended. When \<^verbatim>\<open>reader_init\<close> returns a context, the selected stream
  index is inside the container's stream array, the discard flag of the
  selected stream is \<^verbatim>\<open>AVDISCARD_DEFAULT\<close>, and every other stream is exactly as
  the container had it: no other stream is touched.
\<close>

theorem reader_init_selected_stream_only:
  assumes "reader_init P env file cap = Inr r"
  shows "\<exists>fc. reader_context.format_ctx r = Some fc
           \<and> reader_context.stream_index r = best_stream env
           \<and> 0 \<le> best_stream env
           \<and> nat (best_stream env) < length (streams (container env))
           \<and> length (streams fc) = length (streams (container env))
           \<and> discard (streams fc ! nat (best_stream env)) = AVDISCARD_DEFAULT
           \<and> (\<forall>j < length (streams fc).
                 j \<noteq> nat (best_stream env) \<longrightarrow> streams fc ! j = streams (container env) ! j)"
  using assms
  by (auto simp: reader_init_def Let_def create_queue_def pexit_def
           split: if_splits option.splits sum.splits)

theorem reader_init_selected_stream_only_witness:
  "\<exists>fc. Some \<lparr>streams = [\<lparr>discard = AVDISCARD_DEFAULT\<rparr>, \<lparr>discard = AVDISCARD_NONE\<rparr>]\<rparr> = Some fc
     \<and> length (streams fc) = 2
     \<and> discard (streams fc ! 0) = AVDISCARD_DEFAULT
     \<and> streams fc ! 1 = \<lparr>discard = AVDISCARD_NONE\<rparr>"
  using reader_init_selected_stream_only [of linux_amd64 two_streams "''a.mkv''" 32
      "\<lparr>filename = ''a.mkv'', stream_index = 0, packet_queue = [],
          format_ctx = Some \<lparr>streams = [\<lparr>discard = AVDISCARD_DEFAULT\<rparr>,
                                          \<lparr>discard = AVDISCARD_NONE\<rparr>]\<rparr>\<rparr>"]
  by (simp add: reader_init_def two_streams_def linux_amd64_def create_queue_def)

text \<open>
  C8 does not hold of \<^verbatim>\<open>main\<close>: the reader is not run for the first entry and
  the loop is not left. Take a playlist with at least one entry whose first
  file \<^verbatim>\<open>reader_init\<close> opens, let SDL create the thread and let the thread's
  first \<^verbatim>\<open>malloc\<close> return a packet. The thread is started on \<^verbatim>\<open>&r_ctx\<close>, so
  it reads \<^verbatim>\<open>format_ctx\<close> beyond the pointer variable: the process ends there,
  inside the first iteration, before \<^verbatim>\<open>SDL_WaitThread\<close> returns and before the
  \<^verbatim>\<open>break\<close>; no packet is read and the packet queue of the context that
  \<^verbatim>\<open>reader_init\<close> returned stays as it was. Started on the address of that
  context, the thread would run the reader loop on it. What does hold: the
  entries after the first play no part, \<^verbatim>\<open>main\<close> ends as it does on the
  playlist cut down to its first entry.
\<close>

theorem main_starts_reader_on_pointer_variable:
  assumes "argc env = 2" and "video_files env = file # rest"
    and "reader_init P (on_open env file) file 32 = Inr r"
    and "thread_created env" and "reads env file = s # ss" and "malloc_ok s"
  shows "main P env
           = (Crashed ''r_ctx->format_ctx read beyond the pointer variable'', Some r)
       \<and> playlist_loop P env 32 0 None
           = Stopped (Crashed ''r_ctx->format_ctx read beyond the pointer variable'') (Some r)
       \<and> exit_status (fst (main P env)) = None
       \<and> fst (reader_thread_on P (Address_of_context r) (reads env file))
           = fst (reader_thread P r (reads env file))
       \<and> main P env = main P (env\<lparr>video_files := [file]\<rparr>)"
  using assms
  by (simp add: main_def playlist_loop_def reader_thread_on_def split: prod.splits)

theorem main_starts_reader_on_pointer_variable_witness:
  "main linux_amd64 three_files
     = (Crashed ''r_ctx->format_ctx read beyond the pointer variable'',
        Some \<lparr>filename = ''a.mkv'', stream_index = 0, packet_queue = [],
              format_ctx = Some \<lparr>streams = [\<lparr>discard = AVDISCARD_DEFAULT\<rparr>,
                                              \<lparr>discard = AVDISCARD_NONE\<rparr>]\<rparr>\<rparr>)
   \<and> main linux_amd64 (three_files\<lparr>video_files := [''a.mkv'']\<rparr>)
     = main linux_amd64 three_files
   \<and> reader_thread linux_amd64
        \<lparr>filename = ''a.mkv'', stream_index = 0, packet_queue = [],
          format_ctx = Some \<lparr>streams = [\<lparr>discard = AVDISCARD_DEFAULT\<rparr>,
                                          \<lparr>discard = AVDISCARD_NONE\<rparr>]\<rparr>\<rparr>
        (reads three_files ''a.mkv'')
     = (Returned 0,
        \<lparr>filename = ''a.mkv'', stream_index = 0,
          packet_queue = [Some (mk_packet (Some 1) 0 10), None], format_ctx = None\<rparr>)"
  using main_starts_reader_on_pointer_variable
      [of three_files "''a.mkv''" "[''b.mkv'', ''c.mkv'']" linux_amd64
          "\<lparr>filename = ''a.mkv'', stream_index = 0, packet_queue = [],
             format_ctx = Some \<lparr>streams = [\<lparr>discard = AVDISCARD_DEFAULT\<rparr>,
                                             \<lparr>discard = AVDISCARD_NONE\<rparr>]\<rparr>\<rparr>"
          "reading 0 (mk_packet (Some 1) 0 10)"
          "[reading (- 541478725) (mk_packet None 0 0)]"]
  by (simp add: three_files_def reader_init_def two_streams_def linux_amd64_def
        create_queue_def reader_thread_def reading_def mk_packet_def enqueue_def
        main_def playlist_loop_def reader_thread_on_def)

section \<open>The encoder loop\<close>

text \<open>
  An invariant rule for the encoder loop: \<open>I\<close> holds of the state at every head
  of the loop and when the loop is left by \<^verbatim>\<open>break\<close>, \<open>E oc\<close> of the state with
  which the thread stops inside the loop with outcome \<open>oc\<close>.
\<close>

lemma encoder_loop_inv:
  assumes "I ec" and "set script \<subseteq> S"
    and pk: "\<And>e p. I e \<Longrightarrow>
          I (e\<lparr>encoder_context.packet_queue :=
                 queue_append (encoder_context.packet_queue e) (Some p)\<rparr>)"
    and dq: "\<And>e q. I e \<Longrightarrow> I (e\<lparr>encoder_context.frame_queue := q\<rparr>)"
    and feed: "\<And>e frame s e'. I e \<Longrightarrow> s \<in> S \<Longrightarrow>
          encoder_feed P e frame s = (None, e') \<Longrightarrow> I e'"
    and feedE: "\<And>e frame s oc e'. I e \<Longrightarrow> s \<in> S \<Longrightarrow>
          encoder_feed P e frame s = (Some oc, e') \<Longrightarrow> E oc e'"
    and stop: "\<And>e oc. I e \<Longrightarrow>
          oc = Running \<or> oc = Blocked \<or> oc = Fatal ''av_packet_alloc failed''
            \<or> oc = Fatal ''avcodec_receive_packet failed'' \<Longrightarrow> E oc e"
  shows "case encoder_loop P a ec script of Broke e \<Rightarrow> I e | Stopped oc e \<Rightarrow> E oc e"
  using assms
proof (induction P a ec script rule: encoder_loop.induct)
  case (1 P ec script)
  from "1.prems"(7) [OF "1.prems"(1), of "Fatal ''av_packet_alloc failed''"]
  show ?case by (simp add: pexit_def)
next
  case (2 P ec)
  from "2.prems"(7) [OF "2.prems"(1), of Running]
  show ?case by simp
next
  case (3 P ec s ss)
  note pk = "3.prems"(3) and dq = "3.prems"(4) and feed = "3.prems"(5)
    and feedE = "3.prems"(6) and stop = "3.prems"(7)
  have sS: "s \<in> S" and ssS: "set ss \<subseteq> S"
    using "3.prems"(2) by auto
  show ?case
  proof (cases "receive_ret s = 0")
    case True
    with "3.IH"(1) [OF True pk [OF "3.prems"(1)] ssS pk dq feed feedE stop] show ?thesis by simp
  next
    case nz: False
    show ?thesis
    proof (cases "receive_ret s = AVERROR (EAGAIN P)")
      case again: True
      show ?thesis
      proof (cases "queue_extract (encoder_context.frame_queue ec)")
        case None
        with nz again stop [OF "3.prems"(1), of Blocked] show ?thesis by simp
      next
        case (Some a)
        obtain x q where a: "a = (x, q)" by (cases a)
        show ?thesis
        proof (cases x)
          case None
          with nz again Some a dq [OF "3.prems"(1), of q] show ?thesis by simp
        next
          case frame: (Some frame)
          obtain st ec' where fd:
            "encoder_feed P (ec\<lparr>encoder_context.frame_queue := q\<rparr>) frame s = (st, ec')"
            by (cases "encoder_feed P (ec\<lparr>encoder_context.frame_queue := q\<rparr>) frame s")
          show ?thesis
          proof (cases st)
            case None
            have fdN:
              "encoder_feed P (ec\<lparr>encoder_context.frame_queue := q\<rparr>) frame s = (None, ec')"
              using fd None by simp
            have "I ec'"
              by (rule feed [OF dq [OF "3.prems"(1), of q] sS fdN])
            from "3.IH"(2) [OF nz again Some a [symmetric] frame _ None this ssS pk dq feed feedE stop] fd None
            have "case encoder_loop P True ec' ss of Broke e \<Rightarrow> I e | Stopped oc e \<Rightarrow> E oc e"
              by simp
            with nz again Some a frame fd None show ?thesis by simp
          next
            case (Some oc)
            have fdS:
              "encoder_feed P (ec\<lparr>encoder_context.frame_queue := q\<rparr>) frame s = (Some oc, ec')"
              using fd Some by simp
            have "E oc ec'"
              by (rule feedE [OF dq [OF "3.prems"(1), of q] sS fdS])
            with nz again \<open>queue_extract (encoder_context.frame_queue ec) = Some a\<close>
              a frame fd Some
            show ?thesis by simp
          qed
        qed
      qed
    next
      case na: False
      show ?thesis
      proof (cases "receive_ret s = AVERROR_EOF P")
        case True
        with nz na "3.prems"(1) show ?thesis by simp
      next
        case ne: False
        show ?thesis
        proof (cases "receive_ret s = AVERROR (EINVAL P)")
          case True
          with nz na ne stop [OF "3.prems"(1), of "Fatal ''avcodec_receive_packet failed''"]
          show ?thesis by (simp add: pexit_def)
        next
          case False
          with nz na ne "3.IH"(3) [OF nz na ne False "3.prems"(1) ssS pk dq feed feedE stop]
          show ?thesis by simp
        qed
      qed
    qed
  qed
qed

text \<open>What one pass through the feeding branch does to the state.\<close>

lemma supply_frame_snd:
  "snd (supply_frame P ctx frame r) = ctx\<lparr>sent := sent ctx @ [frame]\<rparr>"
  by (simp add: supply_frame_def Let_def)

lemma supply_frame_fst:
  "fst (supply_frame P ctx frame r) = None
   \<or> (\<exists>oc. fst (supply_frame P ctx frame r) = Some oc \<and> rejected_by_codec oc)"
  by (simp add: supply_frame_def Let_def pexit_def rejected_by_codec_def)

lemma encoder_feed_result:
  assumes "encoder_feed P e frame s = (st, e')"
  shows "encoder_context.frame_queue e' = encoder_context.frame_queue e
       \<and> encoder_context.packet_queue e' = encoder_context.packet_queue e
       \<and> (((st = Some (Fatal ''side data allocation failed'') \<or> st = Some (Fatal ''malloc failed''))
             \<and> sent (encoder_context.avctx e') = sent (encoder_context.avctx e)
             \<and> lag_queue e' = lag_queue e)
          \<or> (\<exists>f. sent (encoder_context.avctx e') = sent (encoder_context.avctx e) @ [f]
                \<and> (sizeof_float P = 4 \<longrightarrow> carries_descriptor P f)
                \<and> ((\<exists>oc. st = Some oc \<and> rejected_by_codec oc \<and> lag_queue e' = lag_queue e)
                    \<or> (st = Some (Crashed ''store through the null timestamp'')
                         \<and> \<not> timestamp_malloc_ok s \<and> lag_queue e' = lag_queue e)
                    \<or> (st = None \<and> timestamp_malloc_ok s
                         \<and> lag_queue e' = lag_queue e @ [Some (now s)]))))"
proof (cases "side_data_ok s")
  case False
  with assms show ?thesis
    by (simp add: encoder_feed_def av_frame_new_side_data_def pexit_def)
next
  case sd: True
  show ?thesis
  proof (cases "descr_malloc_ok s")
    case False
    with assms sd show ?thesis
      by (simp add: encoder_feed_def av_frame_new_side_data_def foveation_descriptor_def
            pexit_def Let_def)
  next
    case dm: True
    define wc where "wc = (w_ctx e)\<lparr>mouse_x := fst (mouse_state s), mouse_y := snd (mouse_state s)\<rparr>"
    define descr where "descr =
      [float_div P (float_of_int P (fst (mouse_state s))) (float_of_int P (fst (window_size s))),
       float_div P (float_of_int P (snd (mouse_state s))) (float_of_int P (snd (window_size s))),
       Finite (float_of_double_const P (3 / 10)), Finite (float_of_int P 20)]"
    define f where "f = frame\<lparr>side_data := side_data frame
        @ [\<lparr>type = AV_FRAME_DATA_FOVEATION_DESCRIPTOR, data = Some (Floats descr),
            size_bytes = descr_size P\<rparr>], pict_type := 0\<rparr>"
    obtain st1 ctx1 where sf:
      "supply_frame P (encoder_context.avctx e) f (send_ret s) = (st1, ctx1)"
      by (cases "supply_frame P (encoder_context.avctx e) f (send_ret s)")
    from supply_frame_snd [of P "encoder_context.avctx e" f "send_ret s"]
      supply_frame_fst [of P "encoder_context.avctx e" f "send_ret s"] sf
    have ctx1: "ctx1 = (encoder_context.avctx e)\<lparr>sent := sent (encoder_context.avctx e) @ [f]\<rparr>"
      and st1: "st1 = None \<or> (\<exists>oc. st1 = Some oc \<and> rejected_by_codec oc)"
      by simp_all
    have carries: "sizeof_float P = 4 \<longrightarrow> carries_descriptor P f"
      by (simp add: carries_descriptor_def f_def descr_def descr_size_def)
    have unfold: "encoder_feed P e frame s =
      (case st1 of
         Some oc \<Rightarrow> (Some oc, e\<lparr>w_ctx := wc, encoder_context.avctx := ctx1\<rparr>)
       | None \<Rightarrow>
           if \<not> timestamp_malloc_ok s
             then (Some (Crashed ''store through the null timestamp''),
                   e\<lparr>w_ctx := wc, encoder_context.avctx := ctx1\<rparr>)
           else (None, e\<lparr>w_ctx := wc, encoder_context.avctx := ctx1,
                          lag_queue := lag_queue e @ [Some (now s)]\<rparr>))"
      using sd dm sf
      by (cases st1)
         (simp_all add: encoder_feed_def av_frame_new_side_data_def foveation_descriptor_def
            Let_def wc_def descr_def f_def queue_append_def)
    show ?thesis
    proof (cases st1)
      case None
      with assms unfold ctx1 carries show ?thesis
        by (cases "timestamp_malloc_ok s") auto
    next
      case (Some oc)
      with st1 have "rejected_by_codec oc" by simp
      with assms unfold ctx1 carries Some show ?thesis
        by auto
    qed
  qed
qed
lemma encoder_loop_frames:
  assumes "sizeof_float P = 4"
  shows "\<exists>new. sent (encoder_context.avctx (exit_state (encoder_loop P a ec script)))
                 = sent (encoder_context.avctx ec) @ new
             \<and> (\<forall>f \<in> set new. carries_descriptor P f)"
proof -
  let ?I = "\<lambda>e. \<exists>new. sent (encoder_context.avctx e) = sent (encoder_context.avctx ec) @ new
                       \<and> (\<forall>f \<in> set new. carries_descriptor P f)"
  have "case encoder_loop P a ec script of Broke e \<Rightarrow> ?I e | Stopped oc e \<Rightarrow> ?I e"
  proof (rule encoder_loop_inv [where I = ?I and E = "\<lambda>oc. ?I" and S = UNIV])
    show "?I ec" by simp
  next
    fix e frame s e'
    assume "?I e" and "encoder_feed P e frame s = (None, e')"
    with encoder_feed_result [of P e frame s None e'] assms show "?I e'" by auto
  next
    fix e frame s oc e'
    assume "?I e" and "encoder_feed P e frame s = (Some oc, e')"
    with encoder_feed_result [of P e frame s "Some oc" e'] assms show "?I e'" by auto
  qed simp_all
  then show ?thesis by (cases "encoder_loop P a ec script") simp_all
qed

text \<open>
  C1. On a platform whose \<^verbatim>\<open>float\<close> has four bytes, every frame that a run of
  the encoder thread passes to the codec (the frames sent beyond those the
  codec context had received before) carries, at the moment it is sent, a
  side-data entry tagged \<^verbatim>\<open>AV_FRAME_DATA_FOVEATION_DESCRIPTOR\<close> of size 16 whose
  payload is non-null and consists of four floats.
\<close>

theorem submitted_frames_carry_descriptor:
  assumes "sizeof_float P = 4"
  shows "\<forall>f \<in> set (drop (length (sent (encoder_context.avctx ec)))
                     (sent (encoder_context.avctx (snd (encoder_thread P packet0 ec script))))).
           carries_descriptor P f"
proof -
  from encoder_loop_frames [OF assms, of packet0 ec script]
  obtain new where
    "sent (encoder_context.avctx (exit_state (encoder_loop P packet0 ec script)))
       = sent (encoder_context.avctx ec) @ new"
    and "\<forall>f \<in> set new. carries_descriptor P f"
    by blast
  then show ?thesis
    by (cases "encoder_loop P packet0 ec script") (simp_all add: encoder_thread_def)
qed

theorem submitted_frames_carry_descriptor_witness:
  "sizeof_float linux_amd64 = 4
   \<and> sent (encoder_context.avctx
        (snd (encoder_thread linux_amd64 True encoder0 [feeding 0 True, feeding 0 True])))
     = [\<lparr>pts = 1, pict_type = 0,
         side_data = [\<lparr>type = AV_FRAME_DATA_FOVEATION_DESCRIPTOR,
                        data = Some (Floats [Finite (1 / 2), Finite (1 / 2),
                                             Finite (float_of_double_const linux_amd64 (3 / 10)),
                                             Finite 20]),
                        size_bytes = 16\<rparr>]\<rparr>]
   \<and> carries_descriptor linux_amd64
       \<lparr>pts = 1, pict_type = 0,
         side_data = [\<lparr>type = AV_FRAME_DATA_FOVEATION_DESCRIPTOR,
                        data = Some (Floats [Finite (1 / 2), Finite (1 / 2),
                                             Finite (float_of_double_const linux_amd64 (3 / 10)),
                                             Finite 20]),
                        size_bytes = 16\<rparr>]\<rparr>"
  using submitted_frames_carry_descriptor
      [of linux_amd64 encoder0 True "[feeding 0 True, feeding 0 True]"]
  by (simp add: encoder_thread_def encoder0_def feeding_def frame1_def linux_amd64_def
        AVERROR_def queue_extract_def queue_append_def encoder_feed_def
        av_frame_new_side_data_def foveation_descriptor_def supply_frame_def descr_size_def
        float_div_def float_of_int_def rounding_exact mk_packet_def
        carries_descriptor_def)

text \<open>
  The bookkeeping of a run that started in \<open>ec\<close>: the frames sent and the time
  stamps enqueued since then, and by how much the former outnumber the latter.
  They are equally many at every head of the loop and in every run that leaves
  the loop; there is one frame more when the process ends between the
  submission and the stamp.
\<close>

lemma encoder_loop_lag:
  "case encoder_loop P a ec script of
     Broke e \<Rightarrow> stamped ec e 0
   | Stopped oc e \<Rightarrow> stamped ec e (if ended_before_stamp oc then 1 else 0)"
proof (rule encoder_loop_inv
         [where I = "\<lambda>e. stamped ec e 0"
            and E = "\<lambda>oc e. stamped ec e (if ended_before_stamp oc then 1 else 0)"
            and S = UNIV])
  show "stamped ec ec 0"
    by (simp add: stamped_def)
next
  show "set script \<subseteq> UNIV"
    by simp
next
  fix e p
  assume "stamped ec e 0"
  then show "stamped ec
       (e\<lparr>encoder_context.packet_queue :=
            queue_append (encoder_context.packet_queue e) (Some p)\<rparr>) 0"
    by (simp add: stamped_def)
next
  fix e q
  assume "stamped ec e 0"
  then show "stamped ec (e\<lparr>encoder_context.frame_queue := q\<rparr>) 0"
    by (simp add: stamped_def)
next
  fix e frame s e'
  assume I: "stamped ec e 0" and fd: "encoder_feed P e frame s = (None, e')"
  from I obtain fs ts where e:
    "sent (encoder_context.avctx e) = sent (encoder_context.avctx ec) @ fs"
    "lag_queue e = lag_queue ec @ map Some ts" "length fs = length ts + 0"
    unfolding stamped_def by blast
  from encoder_feed_result [OF fd] obtain f where
    "sent (encoder_context.avctx e') = sent (encoder_context.avctx e) @ [f]"
    "lag_queue e' = lag_queue e @ [Some (now s)]"
    by auto
  with e have
    "sent (encoder_context.avctx e') = sent (encoder_context.avctx ec) @ (fs @ [f])
     \<and> lag_queue e' = lag_queue ec @ map Some (ts @ [now s])
     \<and> length (fs @ [f]) = length (ts @ [now s]) + 0"
    by simp
  then show "stamped ec e' 0"
    unfolding stamped_def by blast
next
  fix e frame s oc e'
  assume I: "stamped ec e 0"
    and fd: "encoder_feed P e frame s = (Some oc, e')"
  from I obtain fs ts where e:
    "sent (encoder_context.avctx e) = sent (encoder_context.avctx ec) @ fs"
    "lag_queue e = lag_queue ec @ map Some ts" "length fs = length ts + 0"
    unfolding stamped_def by blast
  from encoder_feed_result [OF fd]
  consider
    (early) "oc = Fatal ''side data allocation failed'' \<or> oc = Fatal ''malloc failed''"
      "sent (encoder_context.avctx e') = sent (encoder_context.avctx e)"
      "lag_queue e' = lag_queue e"
  | (ended) f where "rejected_by_codec oc \<or> oc = Crashed ''store through the null timestamp''"
      "sent (encoder_context.avctx e') = sent (encoder_context.avctx e) @ [f]"
      "lag_queue e' = lag_queue e"
    by auto
  then show "stamped ec e' (if ended_before_stamp oc then 1 else 0)"
  proof cases
    case early
    from early(1) have "\<not> ended_before_stamp oc"
      by (auto simp: ended_before_stamp_def rejected_by_codec_def)
    with early(2,3) e show ?thesis
      unfolding stamped_def by auto
  next
    case ended
    from ended(1) have eb: "ended_before_stamp oc"
      by (simp add: ended_before_stamp_def)
    from ended(2,3) e have
      "sent (encoder_context.avctx e') = sent (encoder_context.avctx ec) @ (fs @ [f])
       \<and> lag_queue e' = lag_queue ec @ map Some ts
       \<and> length (fs @ [f]) = length ts + 1"
      by simp
    with eb show ?thesis
      unfolding stamped_def by (simp only: if_True) blast
  qed
next
  fix e oc
  assume I: "stamped ec e 0"
    and "oc = Running \<or> oc = Blocked \<or> oc = Fatal ''av_packet_alloc failed''
           \<or> oc = Fatal ''avcodec_receive_packet failed''"
  then have "\<not> ended_before_stamp oc"
    by (auto simp: ended_before_stamp_def rejected_by_codec_def)
  with I show "stamped ec e (if ended_before_stamp oc then 1 else 0)"
    by simp
qed

text \<open>
  A run on a longer script goes on from where the run on the shorter one was
  still running, and is the same run if that one had ended.
\<close>

lemma encoder_feed_not_running:
  "encoder_feed P e frame s \<noteq> (Some Running, e')"
proof
  assume "encoder_feed P e frame s = (Some Running, e')"
  from encoder_feed_result [OF this] show False
    by (simp add: rejected_by_codec_def)
qed

lemma encoder_loop_append:
  "encoder_loop P a ec (xs @ ys) =
     (case encoder_loop P a ec xs of
        Stopped Running e \<Rightarrow> encoder_loop P True e ys
      | r \<Rightarrow> r)"
proof (induction P a ec xs rule: encoder_loop.induct)
  case (1 P ec script)
  show ?case by (simp add: pexit_def)
next
  case (2 P ec)
  show ?case by simp
next
  case (3 P ec s ss)
  show ?case
  proof (cases "receive_ret s = 0")
    case True
    with "3.IH"(1) show ?thesis by simp
  next
    case nz: False
    show ?thesis
    proof (cases "receive_ret s = AVERROR (EAGAIN P)")
      case again: True
      show ?thesis
      proof (cases "queue_extract (encoder_context.frame_queue ec)")
        case None
        with nz again show ?thesis by simp
      next
        case (Some a)
        obtain x q where a: "a = (x, q)" by (cases a)
        show ?thesis
        proof (cases x)
          case None
          with nz again Some a show ?thesis by simp
        next
          case frame: (Some frame)
          obtain st ec' where fd:
            "encoder_feed P (ec\<lparr>encoder_context.frame_queue := q\<rparr>) frame s = (st, ec')"
            by (cases "encoder_feed P (ec\<lparr>encoder_context.frame_queue := q\<rparr>) frame s")
          show ?thesis
          proof (cases st)
            case None
            with "3.IH"(2) [OF nz again Some a [symmetric] frame _ None] fd
              nz again Some a frame
            show ?thesis by simp
          next
            case (Some oc)
            with fd encoder_feed_not_running
              [of P "ec\<lparr>encoder_context.frame_queue := q\<rparr>" frame s ec']
            have "oc \<noteq> Running" by auto
            with nz again \<open>queue_extract (encoder_context.frame_queue ec) = Some a\<close>
              a frame fd Some
            show ?thesis by (cases oc) simp_all
          qed
        qed
      qed
    next
      case na: False
      show ?thesis
      proof (cases "receive_ret s = AVERROR_EOF P")
        case True
        with nz na show ?thesis by simp
      next
        case ne: False
        show ?thesis
        proof (cases "receive_ret s = AVERROR (EINVAL P)")
          case True
          with nz na ne show ?thesis by (simp add: pexit_def)
        next
          case False
          with nz na ne "3.IH"(3) [OF nz na ne False]
          show ?thesis by simp
        qed
      qed
    qed
  qed
qed

lemma stamped_trans:
  "stamped ec e 0 \<Longrightarrow> stamped e e' k \<Longrightarrow>
   \<exists>fs ts. sent (encoder_context.avctx e') = sent (encoder_context.avctx e) @ fs
         \<and> lag_queue e' = lag_queue e @ map Some ts"
  unfolding stamped_def by blast

text \<open>
  C2. Take any run of the encoder loop and look at it after any number \<open>n\<close> of
  iterations. The frames handed to \<^verbatim>\<open>avcodec_send_frame\<close> so far and the
  entries appended to the lag queue so far (none of them null) are equally many
  whenever the thread is at a head of the loop, is blocked on its input queue
  or has returned; the rest of the run only appends to both sequences. So the
  i-th lag entry is appended in the iteration that submits the i-th frame,
  before the next frame is submitted, and a run that has returned has as many
  lag entries as submitted frames. The only states with a frame more than lag
  entries are those in which the process has just ended on the last frame: the
  codec refused it (\<^verbatim>\<open>supply_frame\<close> called \<^verbatim>\<open>pexit\<close>), or no block for its
  time stamp could be allocated.
\<close>

theorem lag_entry_per_submitted_frame:
  "\<exists>fs ts fs' ts'.
     sent (encoder_context.avctx (snd (encoder_thread P packet0 ec (take n script))))
       = sent (encoder_context.avctx ec) @ fs
   \<and> lag_queue (snd (encoder_thread P packet0 ec (take n script)))
       = lag_queue ec @ map Some ts
   \<and> (fst (encoder_thread P packet0 ec (take n script)) = Running
        \<or> fst (encoder_thread P packet0 ec (take n script)) = Blocked
        \<or> fst (encoder_thread P packet0 ec (take n script)) = Returned 0
       \<longrightarrow> length fs = length ts)
   \<and> length fs = length ts
       + (if ended_before_stamp (fst (encoder_thread P packet0 ec (take n script)))
          then 1 else 0)
   \<and> sent (encoder_context.avctx (snd (encoder_thread P packet0 ec script)))
       = sent (encoder_context.avctx ec) @ fs @ fs'
   \<and> lag_queue (snd (encoder_thread P packet0 ec script))
       = lag_queue ec @ map Some (ts @ ts')"
proof -
  let ?part = "encoder_loop P packet0 ec (take n script)"
  have whole: "encoder_loop P packet0 ec script =
      (case ?part of Stopped Running e \<Rightarrow> encoder_loop P True e (drop n script) | r \<Rightarrow> r)"
    using encoder_loop_append [of P packet0 ec "take n script" "drop n script"] by simp
  have nr: "\<not> ended_before_stamp (Returned 0)" "\<not> ended_before_stamp Running"
    "\<not> ended_before_stamp Blocked"
    by (simp_all add: ended_before_stamp_def rejected_by_codec_def)
  show ?thesis
  proof (cases ?part)
    case (Broke e)
    with encoder_loop_lag [where P = P and a = packet0 and ec = ec and script = "take n script"]
    have "stamped ec e 0" by simp
    then obtain fs ts where
      "sent (encoder_context.avctx e) = sent (encoder_context.avctx ec) @ fs"
      "lag_queue e = lag_queue ec @ map Some ts" "length fs = length ts"
      unfolding stamped_def by auto
    with Broke whole nr show ?thesis
      by (auto simp: encoder_thread_def)
  next
    case (Stopped oc e)
    with encoder_loop_lag [where P = P and a = packet0 and ec = ec and script = "take n script"]
    have "stamped ec e (if ended_before_stamp oc then 1 else 0)" by simp
    then obtain fs ts where part:
      "sent (encoder_context.avctx e) = sent (encoder_context.avctx ec) @ fs"
      "lag_queue e = lag_queue ec @ map Some ts"
      "length fs = length ts + (if ended_before_stamp oc then 1 else 0)"
      unfolding stamped_def by auto
    have eq: "oc = Running \<or> oc = Blocked \<or> oc = Returned 0 \<longrightarrow> length fs = length ts"
      using part(3) nr by auto
    have this_run: "fst (encoder_thread P packet0 ec (take n script)) = oc
          \<and> snd (encoder_thread P packet0 ec (take n script)) = e"
      using Stopped by (simp add: encoder_thread_def)
    show ?thesis
    proof (cases "oc = Running")
      case False
      with Stopped whole have "encoder_loop P packet0 ec script = Stopped oc e"
        by (cases oc) simp_all
      then have "fst (encoder_thread P packet0 ec script) = oc
          \<and> snd (encoder_thread P packet0 ec script) = e"
        by (simp add: encoder_thread_def)
      with part eq this_run show ?thesis
        by (intro exI [of _ fs] exI [of _ ts] exI [of _ "[]"]) simp
    next
      case True
      with Stopped whole have w: "encoder_loop P packet0 ec script
          = encoder_loop P True e (drop n script)"
        by simp
      from encoder_loop_lag [where P = P and a = True and ec = e and script = "drop n script"]
      obtain k where "stamped e (exit_state (encoder_loop P True e (drop n script))) k"
        by (cases "encoder_loop P True e (drop n script)") auto
      then obtain fs' ts' where rest:
        "sent (encoder_context.avctx (exit_state (encoder_loop P True e (drop n script))))
           = sent (encoder_context.avctx e) @ fs'"
        "lag_queue (exit_state (encoder_loop P True e (drop n script)))
           = lag_queue e @ map Some ts'"
        unfolding stamped_def by auto
      have full: "sent (encoder_context.avctx (snd (encoder_thread P packet0 ec script)))
           = sent (encoder_context.avctx e) @ fs'
         \<and> lag_queue (snd (encoder_thread P packet0 ec script)) = lag_queue e @ map Some ts'"
        using rest w
        by (cases "encoder_loop P True e (drop n script)") (simp_all add: encoder_thread_def)
      from part full eq this_run show ?thesis
        by (intro exI [of _ fs] exI [of _ ts] exI [of _ fs'] exI [of _ ts']) simp
    qed
  qed
qed

theorem lag_entry_per_submitted_frame_witness:
  "sent (encoder_context.avctx
      (snd (encoder_thread linux_amd64 True encoder0 [feeding 0 True, feeding 0 True])))
     = [\<lparr>pts = 1, pict_type = 0,
         side_data = [\<lparr>type = AV_FRAME_DATA_FOVEATION_DESCRIPTOR,
                        data = Some (Floats [Finite (1 / 2), Finite (1 / 2),
                                             Finite (float_of_double_const linux_amd64 (3 / 10)),
                                             Finite 20]),
                        size_bytes = 16\<rparr>]\<rparr>]
   \<and> lag_queue (snd (encoder_thread linux_amd64 True encoder0 [feeding 0 True, feeding 0 True]))
     = [Some 1000]
   \<and> fst (encoder_thread linux_amd64 True encoder0 [feeding 0 True, feeding 0 True])
     = Returned 0"
  using lag_entry_per_submitted_frame
      [of linux_amd64 True encoder0 2 "[feeding 0 True, feeding 0 True]"]
  by (simp add: encoder_thread_def encoder0_def feeding_def frame1_def linux_amd64_def
        AVERROR_def queue_extract_def queue_append_def encoder_feed_def
        av_frame_new_side_data_def foveation_descriptor_def supply_frame_def descr_size_def
        float_div_def float_of_int_def rounding_exact mk_packet_def)

text \<open>
  C7 at the input where it fails: the frame is accepted by the codec and
  \<^verbatim>\<open>malloc\<close> returns no block for the time stamp. The thread does not end in
  \<^verbatim>\<open>pexit\<close>: after \<^verbatim>\<open>perror\<close> it stores the time through the null pointer, so
  there is no exit with \<^verbatim>\<open>EXIT_FAILURE\<close>. The allocation of the descriptor block
  in the same iteration, by contrast, ends in \<^verbatim>\<open>pexit\<close> when it fails.
\<close>

theorem timestamp_malloc_failure_is_not_fatal:
  "fst (encoder_thread linux_amd64 True encoder0 [feeding 0 False])
     = Crashed ''store through the null timestamp''
   \<and> exit_status (fst (encoder_thread linux_amd64 True encoder0 [feeding 0 False])) = None
   \<and> fst (encoder_thread linux_amd64 True encoder0
            [(feeding 0 True)\<lparr>descr_malloc_ok := False\<rparr>])
     = Fatal ''malloc failed''
   \<and> exit_status (fst (encoder_thread linux_amd64 True encoder0
            [(feeding 0 True)\<lparr>descr_malloc_ok := False\<rparr>])) = Some EXIT_FAILURE"
  by (simp add: encoder_thread_def encoder0_def feeding_def frame1_def linux_amd64_def
        AVERROR_def queue_extract_def queue_append_def encoder_feed_def
        av_frame_new_side_data_def foveation_descriptor_def supply_frame_def descr_size_def
        float_div_def float_of_int_def rounding_exact mk_packet_def pexit_def)

section \<open>The sentinel\<close>

lemma appended_refl: "appended q q"
  unfolding appended_def by (rule exI [of _ "[]"]) simp

lemma appended_snoc: "appended q0 q \<Longrightarrow> appended q0 (q @ [Some x])"
  unfolding appended_def
proof -
  assume "\<exists>items. q = q0 @ map Some items"
  then obtain items where "q = q0 @ map Some items" ..
  then have "q @ [Some x] = q0 @ map Some (items @ [x])" by simp
  then show "\<exists>items. q @ [Some x] = q0 @ map Some items" ..
qed

lemma sentinel_rule_returned:
  "appended q0 q \<Longrightarrow> sentinel_rule (Returned 0) q0 (q @ [None])"
  by (auto simp: sentinel_rule_def appended_def butlast_append)

lemma sentinel_rule_stopped:
  "appended q0 q \<Longrightarrow> oc \<noteq> Returned 0 \<Longrightarrow> sentinel_rule oc q0 q"
  by (auto simp: sentinel_rule_def appended_def)

lemma reader_loop_queue:
  "appended q0 (reader_context.packet_queue r) \<Longrightarrow>
   (case reader_loop P r script of
      Broke e \<Rightarrow> appended q0 (reader_context.packet_queue e)
    | Stopped oc e \<Rightarrow> appended q0 (reader_context.packet_queue e) \<and> oc \<noteq> Returned 0)"
proof (induction script arbitrary: r)
  case Nil
  then show ?case by simp
next
  case (Cons s ss)
  from Cons.prems have
    "appended q0 (reader_context.packet_queue
       (r\<lparr>reader_context.packet_queue :=
            enqueue (reader_context.packet_queue r) (Some (pkt s))\<rparr>))"
    by (simp add: enqueue_def appended_snoc)
  from Cons.IH [OF this] Cons.IH [OF Cons.prems] Cons.prems
  show ?case by (simp add: pexit_def)
qed

lemma reader_thread_sentinel:
  "sentinel_rule (fst (reader_thread P r script)) (reader_context.packet_queue r)
     (reader_context.packet_queue (snd (reader_thread P r script)))"
  using reader_loop_queue [OF appended_refl, of r P script]
  by (cases "reader_loop P r script")
     (simp_all add: reader_thread_def enqueue_def sentinel_rule_returned sentinel_rule_stopped)

lemma supply_packet_fst:
  "fst (supply_packet P ctx p r) \<noteq> Some (Returned c)"
  by (simp add: supply_packet_def Let_def pexit_def)

lemma supply_packet_main_fst:
  "fst (supply_packet_main P ctx p r) \<noteq> Some (Returned c)"
  by (simp add: supply_packet_main_def Let_def pexit_def)

lemma decoder_loop_queue:
  "appended q0 (decoder_context.frame_queue dc) \<Longrightarrow>
   (case decoder_loop P a dc script of
      Broke d \<Rightarrow> appended q0 (decoder_context.frame_queue d)
    | Stopped oc d \<Rightarrow> appended q0 (decoder_context.frame_queue d) \<and> oc \<noteq> Returned 0)"
proof (induction P a dc script rule: decoder_loop.induct)
  case (1 P dc script)
  then show ?case by (simp add: pexit_def)
next
  case (2 P dc)
  then show ?case by simp
next
  case (3 P dc s ss)
  show ?case
  proof (cases "receive_ret s = 0")
    case True
    from "3.prems" have
      "appended q0 (decoder_context.frame_queue
         (dc\<lparr>decoder_context.frame_queue :=
               queue_append (decoder_context.frame_queue dc) (Some (received s))\<rparr>))"
      by (simp add: queue_append_def appended_snoc)
    from "3.IH"(1) [OF True this] True show ?thesis by simp
  next
    case nz: False
    show ?thesis
    proof (cases "receive_ret s = AVERROR (EAGAIN P)")
      case again: True
      show ?thesis
      proof (cases "queue_extract (decoder_context.packet_queue dc)")
        case None
        with nz again "3.prems" show ?thesis by simp
      next
        case (Some a)
        obtain packet q where a: "a = (packet, q)" by (cases a)
        obtain st ctx where sp:
          "supply_packet P (decoder_context.avctx dc) packet (send_ret s) = (st, ctx)"
          by (cases "supply_packet P (decoder_context.avctx dc) packet (send_ret s)")
        show ?thesis
        proof (cases st)
          case None
          from "3.prems" have
            "appended q0 (decoder_context.frame_queue
               (dc\<lparr>decoder_context.packet_queue := q, decoder_context.avctx := ctx\<rparr>))"
            by simp
          from "3.IH"(2) [OF nz again Some a [symmetric] sp [symmetric] None this] sp None
            nz again Some a
          show ?thesis by simp
        next
          case (Some oc)
          with sp supply_packet_fst [of P "decoder_context.avctx dc" packet "send_ret s" 0]
          have "oc \<noteq> Returned 0" by auto
          with nz again \<open>queue_extract (decoder_context.packet_queue dc) = Some a\<close>
            a sp Some "3.prems"
          show ?thesis by simp
        qed
      qed
    next
      case na: False
      show ?thesis
      proof (cases "receive_ret s = AVERROR_EOF P")
        case True
        with nz na "3.prems" show ?thesis by simp
      next
        case ne: False
        show ?thesis
        proof (cases "receive_ret s = AVERROR (EINVAL P)")
          case True
          with nz na ne "3.prems" show ?thesis by (simp add: pexit_def)
        next
          case False
          with nz na ne "3.IH"(3) [OF nz na ne False "3.prems"]
          show ?thesis by simp
        qed
      qed
    qed
  qed
qed

lemma decoder_thread_sentinel:
  "sentinel_rule (fst (decoder_thread P frame0 dc script)) (decoder_context.frame_queue dc)
     (decoder_context.frame_queue (snd (decoder_thread P frame0 dc script)))"
  using decoder_loop_queue [OF appended_refl, of dc P frame0 script]
  by (cases "decoder_loop P frame0 dc script")
     (simp_all add: decoder_thread_def queue_append_def sentinel_rule_returned
        sentinel_rule_stopped)


section \<open>The two decoder loops\<close>

lemma supply_packet_main_eq:
  "supply_packet_main P ctx p r = supply_packet P ctx p r"
  by (simp add: supply_packet_main_def supply_packet_def)

lemma decoder_loops_agree:
  "same_view dc st \<Longrightarrow>
   exits_agree (decoder_loop P True dc script) (decoder_loop_main P st script)"
proof (induction script arbitrary: dc st)
  case Nil
  then show ?case by (cases st) simp
next
  case (Cons s ss)
  obtain m ctx where st: "st = (m, ctx)" by (cases st)
  with Cons.prems have q:
    "decoder_context.packet_queue dc = main_decoder_context.packet_queue m"
    "decoder_context.frame_queue dc = main_decoder_context.frame_queue m"
    "decoder_context.avctx dc = ctx"
    by (simp_all add: same_view_def)
  show ?case
  proof (cases "receive_ret s = 0")
    case True
    let ?dc = "dc\<lparr>decoder_context.frame_queue :=
                   queue_append (decoder_context.frame_queue dc) (Some (received s))\<rparr>"
    let ?m = "m\<lparr>main_decoder_context.frame_queue :=
                  enqueue (main_decoder_context.frame_queue m) (Some (received s))\<rparr>"
    have v: "same_view ?dc (?m, ctx)"
      using q by (simp add: same_view_def queue_append_def enqueue_def)
    show ?thesis
    proof (cases "alloc_ok s")
      case True
      with \<open>receive_ret s = 0\<close> Cons.IH [OF v] st show ?thesis by simp
    next
      case False
      with \<open>receive_ret s = 0\<close> v st show ?thesis by (simp add: Let_def)
    qed
  next
    case nz: False
    show ?thesis
    proof (cases "receive_ret s = AVERROR (EAGAIN P)")
      case again: True
      show ?thesis
      proof (cases "main_decoder_context.packet_queue m")
        case Nil
        with nz again q st Cons.prems show ?thesis
          by (simp add: queue_extract_def dequeue_def)
      next
        case (Cons p rest)
        obtain oc ctx' where sp: "supply_packet P ctx p (send_ret s) = (oc, ctx')"
          by (cases "supply_packet P ctx p (send_ret s)")
        have v: "same_view (dc\<lparr>decoder_context.packet_queue := rest,
                                decoder_context.avctx := ctx'\<rparr>)
                   (m\<lparr>main_decoder_context.packet_queue := rest\<rparr>, ctx')"
          using q by (simp add: same_view_def)
        show ?thesis
        proof (cases oc)
          case None
          with nz again q st Cons sp Cons.IH [OF v] show ?thesis
            by (simp add: queue_extract_def dequeue_def supply_packet_main_eq)
        next
          case (Some fatal)
          with nz again q st Cons sp v show ?thesis
            by (simp add: queue_extract_def dequeue_def supply_packet_main_eq)
        qed
      qed
    next
      case na: False
      show ?thesis
      proof (cases "receive_ret s = AVERROR_EOF P")
        case True
        with nz na st Cons.prems show ?thesis by simp
      next
        case ne: False
        show ?thesis
        proof (cases "receive_ret s = AVERROR (EINVAL P)")
          case True
          with nz na ne st Cons.prems show ?thesis by simp
        next
          case False
          with nz na ne st Cons.IH [OF Cons.prems] show ?thesis by simp
        qed
      qed
    qed
  qed
qed

text \<open>
  C10. Let main.c's thread get a decoder from \<^verbatim>\<open>open_decoder\<close>, and let
  codec.c's thread start with the same queues and a codec context that has
  likewise been sent nothing yet. For the same codec answers and allocation
  results the two threads end with the same outcome, the same frame queue, the
  same remaining packet queue and the same sequence of packets sent to the
  codec; and the frames they enqueue are followed by one null sentinel exactly
  when they return.
\<close>

theorem decoder_threads_agree:
  assumes "open_decoder env (main_decoder_context.format_ctx m)
             (main_decoder_context.stream_index m) = Inr (decoder_context.avctx dc)"
    and "decoder_context.packet_queue dc = main_decoder_context.packet_queue m"
    and "decoder_context.frame_queue dc = main_decoder_context.frame_queue m"
  shows "fst (decoder_thread_main P env frame0 m script) = fst (decoder_thread P frame0 dc script)
       \<and> main_decoder_context.frame_queue (fst (snd (decoder_thread_main P env frame0 m script)))
           = decoder_context.frame_queue (snd (decoder_thread P frame0 dc script))
       \<and> main_decoder_context.packet_queue (fst (snd (decoder_thread_main P env frame0 m script)))
           = decoder_context.packet_queue (snd (decoder_thread P frame0 dc script))
       \<and> snd (snd (decoder_thread_main P env frame0 m script))
           = Some (decoder_context.avctx (snd (decoder_thread P frame0 dc script)))
       \<and> sentinel_rule (fst (decoder_thread P frame0 dc script))
           (decoder_context.frame_queue dc)
           (decoder_context.frame_queue (snd (decoder_thread P frame0 dc script)))"
proof (cases frame0)
  case False
  with assms decoder_thread_sentinel [of P frame0 dc script] show ?thesis
    by (simp add: decoder_thread_main_def decoder_thread_def)
next
  case True
  have "same_view dc (m, decoder_context.avctx dc)"
    using assms(2,3) by (simp add: same_view_def)
  from decoder_loops_agree [OF this, of P script]
  have "exits_agree (decoder_loop P True dc script)
          (decoder_loop_main P (m, decoder_context.avctx dc) script)" .
  then have "fst (decoder_thread_main P env frame0 m script)
        = fst (decoder_thread P frame0 dc script)
    \<and> main_decoder_context.frame_queue (fst (snd (decoder_thread_main P env frame0 m script)))
        = decoder_context.frame_queue (snd (decoder_thread P frame0 dc script))
    \<and> main_decoder_context.packet_queue (fst (snd (decoder_thread_main P env frame0 m script)))
        = decoder_context.packet_queue (snd (decoder_thread P frame0 dc script))
    \<and> snd (snd (decoder_thread_main P env frame0 m script))
        = Some (decoder_context.avctx (snd (decoder_thread P frame0 dc script)))"
    using True assms(1)
    by (cases "decoder_loop P True dc script";
        cases "decoder_loop_main P (m, decoder_context.avctx dc) script")
       (auto simp: decoder_thread_main_def decoder_thread_def same_view_def
          queue_append_def enqueue_def)
  with decoder_thread_sentinel [of P frame0 dc script] show ?thesis by simp
qed

theorem decoder_threads_agree_witness:
  "decoder_thread_main linux_amd64 open_fine True main_decoder0
       [decoding (- 11) 0, decoding 0 0, decoding (- 11) 0, decoding (- 541478725) 0]
     = (Returned 0,
        main_decoder0\<lparr>main_decoder_context.packet_queue := [],
                      main_decoder_context.frame_queue := [Some frame1, None]\<rparr>,
        Some \<lparr>sent = [Some (mk_packet (Some 1) 0 10), None]\<rparr>)
   \<and> decoder_thread linux_amd64 True decoder0
       [decoding (- 11) 0, decoding 0 0, decoding (- 11) 0, decoding (- 541478725) 0]
     = (Returned 0,
        decoder0\<lparr>decoder_context.packet_queue := [],
                 decoder_context.frame_queue := [Some frame1, None],
                 decoder_context.avctx := \<lparr>sent = [Some (mk_packet (Some 1) 0 10), None]\<rparr>\<rparr>)"
  using decoder_threads_agree [of open_fine main_decoder0 decoder0 linux_amd64 True
      "[decoding (- 11) 0, decoding 0 0, decoding (- 11) 0, decoding (- 541478725) 0]"]
  by (simp add: decoder_thread_main_def decoder_thread_def open_decoder_def open_fine_def
        main_decoder0_def decoder0_def decoding_def linux_amd64_def AVERROR_def
        queue_extract_def queue_append_def enqueue_def dequeue_def
        supply_packet_def supply_packet_main_def)

section \<open>The sentinel through the stages\<close>

lemma open_decoder_not_returned:
  "open_decoder env fmt idx \<noteq> Inl (Returned c)"
  by (simp add: open_decoder_def pexit_def split: option.splits)

lemma decoder_thread_main_sentinel:
  "sentinel_rule (fst (decoder_thread_main P env frame0 m script))
     (main_decoder_context.frame_queue m)
     (main_decoder_context.frame_queue (fst (snd (decoder_thread_main P env frame0 m script))))"
proof (cases "open_decoder env (main_decoder_context.format_ctx m)
                (main_decoder_context.stream_index m)")
  case (Inl oc)
  with open_decoder_not_returned [of env "main_decoder_context.format_ctx m"
      "main_decoder_context.stream_index m" 0]
  have "oc \<noteq> Returned 0" by auto
  with Inl show ?thesis
    by (simp add: decoder_thread_main_def sentinel_rule_stopped appended_refl)
next
  case (Inr ctx)
  show ?thesis
  proof (cases frame0)
    case False
    with Inr show ?thesis
      by (simp add: decoder_thread_main_def pexit_def sentinel_rule_stopped appended_refl)
  next
    case True
    define dc where "dc =
      \<lparr>decoder_context.packet_queue = main_decoder_context.packet_queue m,
       decoder_context.frame_queue = main_decoder_context.frame_queue m,
       decoder_context.avctx = ctx\<rparr>"
    have "same_view dc (m, ctx)"
      by (simp add: same_view_def dc_def)
    from decoder_loops_agree [OF this, of P script]
    have agree: "exits_agree (decoder_loop P True dc script)
        (decoder_loop_main P (m, ctx) script)" .
    have q: "case decoder_loop P True dc script of
        Broke d \<Rightarrow> appended (main_decoder_context.frame_queue m) (decoder_context.frame_queue d)
      | Stopped oc d \<Rightarrow> appended (main_decoder_context.frame_queue m)
            (decoder_context.frame_queue d) \<and> oc \<noteq> Returned 0"
      using decoder_loop_queue [of "main_decoder_context.frame_queue m" dc P True script]
      by (simp add: dc_def appended_refl)
    from agree q Inr True show ?thesis
      by (cases "decoder_loop P True dc script";
          cases "decoder_loop_main P (m, ctx) script")
         (auto simp: decoder_thread_main_def same_view_def enqueue_def
            sentinel_rule_returned sentinel_rule_stopped)
  qed
qed

lemma encoder_loop_queue:
  "case encoder_loop P a ec script of
     Broke e \<Rightarrow> appended (encoder_context.packet_queue ec) (encoder_context.packet_queue e)
   | Stopped oc e \<Rightarrow>
       appended (encoder_context.packet_queue ec) (encoder_context.packet_queue e)
       \<and> oc \<noteq> Returned 0"
proof (rule encoder_loop_inv
    [where I = "\<lambda>e. appended (encoder_context.packet_queue ec) (encoder_context.packet_queue e)"
       and E = "\<lambda>oc e. appended (encoder_context.packet_queue ec)
                          (encoder_context.packet_queue e) \<and> oc \<noteq> Returned 0"
       and S = UNIV])
  show "appended (encoder_context.packet_queue ec) (encoder_context.packet_queue ec)"
    by (rule appended_refl)
next
  fix e p
  assume "appended (encoder_context.packet_queue ec) (encoder_context.packet_queue e)"
  then show "appended (encoder_context.packet_queue ec)
      (encoder_context.packet_queue
        (e\<lparr>encoder_context.packet_queue :=
             queue_append (encoder_context.packet_queue e) (Some p)\<rparr>))"
    by (simp add: queue_append_def appended_snoc)
next
  fix e frame s e'
  assume "appended (encoder_context.packet_queue ec) (encoder_context.packet_queue e)"
    and "encoder_feed P e frame s = (None, e')"
  with encoder_feed_result [of P e frame s None e']
  show "appended (encoder_context.packet_queue ec) (encoder_context.packet_queue e')"
    by simp
next
  fix e frame s oc e'
  assume a: "appended (encoder_context.packet_queue ec) (encoder_context.packet_queue e)"
    and fd: "encoder_feed P e frame s = (Some oc, e')"
  from encoder_feed_result [OF fd]
  have "encoder_context.packet_queue e' = encoder_context.packet_queue e"
    and "oc \<noteq> Returned 0"
    by (auto simp: rejected_by_codec_def)
  with a show "appended (encoder_context.packet_queue ec) (encoder_context.packet_queue e')
      \<and> oc \<noteq> Returned 0"
    by simp
qed auto

lemma encoder_thread_sentinel:
  "sentinel_rule (fst (encoder_thread P packet0 ec script)) (encoder_context.packet_queue ec)
     (encoder_context.packet_queue (snd (encoder_thread P packet0 ec script)))"
  using encoder_loop_queue [where P = P and a = packet0 and ec = ec and script = script]
  by (cases "encoder_loop P packet0 ec script")
     (simp_all add: encoder_thread_def queue_append_def sentinel_rule_returned
        sentinel_rule_stopped)

text \<open>
  The consuming side: what the encoder and the decoders take from their input
  queues, and that the lag queue only ever receives time stamps.
\<close>

lemma took_payloads_refl: "took_payloads q q"
  unfolding took_payloads_def by (rule exI [of _ "[]"]) simp

lemma took_payloads_step:
  "took_payloads q1 q \<Longrightarrow> took_payloads (Some x # q1) q"
  unfolding took_payloads_def
proof -
  assume "\<exists>items. q1 = map Some items @ q"
  then obtain items where "q1 = map Some items @ q" ..
  then have "Some x # q1 = map Some (x # items) @ q" by simp
  then show "\<exists>items. Some x # q1 = map Some items @ q" ..
qed

lemma took_sentinel_now: "took_sentinel (None # q) q"
  unfolding took_sentinel_def by (rule exI [of _ "[]"]) simp

lemma took_sentinel_step:
  "took_sentinel q1 q \<Longrightarrow> took_sentinel (Some x # q1) q"
  unfolding took_sentinel_def
proof -
  assume "\<exists>items. q1 = map Some items @ None # q"
  then obtain items where "q1 = map Some items @ None # q" ..
  then have "Some x # q1 = map Some (x # items) @ None # q" by simp
  then show "\<exists>items. Some x # q1 = map Some items @ None # q" ..
qed

lemma queue_extract_Some:
  "queue_extract q = Some (x, q') \<longleftrightarrow> q = x # q'"
  by (cases q) (auto simp: queue_extract_def)

lemma encoder_loop_dequeues:
  "took_payloads (encoder_context.frame_queue ec)
     (encoder_context.frame_queue (exit_state (encoder_loop P a ec script)))
   \<or> took_sentinel (encoder_context.frame_queue ec)
        (encoder_context.frame_queue (exit_state (encoder_loop P a ec script)))
      \<and> (\<exists>e. encoder_loop P a ec script = Broke e)"
proof (induction P a ec script rule: encoder_loop.induct)
  case (1 P ec script)
  show ?case by (simp add: took_payloads_refl)
next
  case (2 P ec)
  show ?case by (simp add: took_payloads_refl)
next
  case (3 P ec s ss)
  show ?case
  proof (cases "receive_ret s = 0")
    case True
    with "3.IH"(1) [OF True] show ?thesis by simp
  next
    case nz: False
    show ?thesis
    proof (cases "receive_ret s = AVERROR (EAGAIN P)")
      case again: True
      show ?thesis
      proof (cases "queue_extract (encoder_context.frame_queue ec)")
        case None
        with nz again show ?thesis by (simp add: took_payloads_refl)
      next
        case (Some a)
        obtain x q where a: "a = (x, q)" by (cases a)
        from Some a have fq: "encoder_context.frame_queue ec = x # q"
          by (simp add: queue_extract_Some)
        show ?thesis
        proof (cases x)
          case None
          with nz again Some a fq show ?thesis by (simp add: took_sentinel_now)
        next
          case frame: (Some frame)
          obtain st ec' where fd:
            "encoder_feed P (ec\<lparr>encoder_context.frame_queue := q\<rparr>) frame s = (st, ec')"
            by (cases "encoder_feed P (ec\<lparr>encoder_context.frame_queue := q\<rparr>) frame s")
          from encoder_feed_result [OF fd]
          have keep: "encoder_context.frame_queue ec' = q" by simp
          show ?thesis
          proof (cases st)
            case None
            from "3.IH"(2) [OF nz again Some a [symmetric] frame _ None] fd None
            have "took_payloads (encoder_context.frame_queue ec')
                (encoder_context.frame_queue (exit_state (encoder_loop P True ec' ss)))
              \<or> took_sentinel (encoder_context.frame_queue ec')
                  (encoder_context.frame_queue (exit_state (encoder_loop P True ec' ss)))
                \<and> (\<exists>e. encoder_loop P True ec' ss = Broke e)"
              by simp
            with keep fq frame
            have "took_payloads (encoder_context.frame_queue ec)
                (encoder_context.frame_queue (exit_state (encoder_loop P True ec' ss)))
              \<or> took_sentinel (encoder_context.frame_queue ec)
                  (encoder_context.frame_queue (exit_state (encoder_loop P True ec' ss)))
                \<and> (\<exists>e. encoder_loop P True ec' ss = Broke e)"
              by (auto simp: took_payloads_step took_sentinel_step)
            with nz again \<open>queue_extract (encoder_context.frame_queue ec) = Some a\<close>
              a frame fd None
            show ?thesis by simp
          next
            case (Some oc)
            from keep fq frame
            have "took_payloads (encoder_context.frame_queue ec) (encoder_context.frame_queue ec')"
              by (simp add: took_payloads_step took_payloads_refl)
            with nz again \<open>queue_extract (encoder_context.frame_queue ec) = Some a\<close>
              a frame fd Some
            show ?thesis by simp
          qed
        qed
      qed
    next
      case na: False
      show ?thesis
      proof (cases "receive_ret s = AVERROR_EOF P")
        case True
        with nz na show ?thesis by (simp add: took_payloads_refl)
      next
        case ne: False
        show ?thesis
        proof (cases "receive_ret s = AVERROR (EINVAL P)")
          case True
          with nz na ne show ?thesis by (simp add: pexit_def took_payloads_refl)
        next
          case False
          with nz na ne "3.IH"(3) [OF nz na ne False]
          show ?thesis by simp
        qed
      qed
    qed
  qed
qed

lemma encoder_thread_dequeues:
  "took_payloads (encoder_context.frame_queue ec)
     (encoder_context.frame_queue (snd (encoder_thread P packet0 ec script)))
   \<or> took_sentinel (encoder_context.frame_queue ec)
        (encoder_context.frame_queue (snd (encoder_thread P packet0 ec script)))
      \<and> fst (encoder_thread P packet0 ec script) = Returned 0"
  using encoder_loop_dequeues [where P = P and a = packet0 and ec = ec and script = script]
  by (cases "encoder_loop P packet0 ec script") (auto simp: encoder_thread_def)

lemma stamped_appended: "stamped ec e k \<Longrightarrow> appended (lag_queue ec) (lag_queue e)"
  unfolding stamped_def appended_def by blast

lemma encoder_thread_lag_queue:
  "appended (lag_queue ec) (lag_queue (snd (encoder_thread P packet0 ec script)))"
  using encoder_loop_lag [where P = P and a = packet0 and ec = ec and script = script]
  by (cases "encoder_loop P packet0 ec script")
     (auto simp: encoder_thread_def dest: stamped_appended)

lemma supply_packet_snd:
  "snd (supply_packet P ctx p r) = ctx\<lparr>sent := sent ctx @ [p]\<rparr>"
  by (simp add: supply_packet_def Let_def)

lemma forwarded_refl: "forwarded q q s s"
  unfolding forwarded_def by (rule exI [of _ "[]"]) simp

lemma forwarded_step:
  "forwarded q1 q (s0 @ [x]) s \<Longrightarrow> forwarded (x # q1) q s0 s"
  unfolding forwarded_def
proof -
  assume "\<exists>taken. q1 = taken @ q \<and> s = (s0 @ [x]) @ taken"
  then obtain taken where "q1 = taken @ q \<and> s = (s0 @ [x]) @ taken" ..
  then have "x # q1 = (x # taken) @ q \<and> s = s0 @ (x # taken)" by simp
  then show "\<exists>taken. x # q1 = taken @ q \<and> s = s0 @ taken" ..
qed

lemma decoder_loop_forwards:
  "forwarded (decoder_context.packet_queue dc)
     (decoder_context.packet_queue (exit_state (decoder_loop P a dc script)))
     (sent (decoder_context.avctx dc))
     (sent (decoder_context.avctx (exit_state (decoder_loop P a dc script))))"
proof (induction P a dc script rule: decoder_loop.induct)
  case (1 P dc script)
  show ?case by (simp add: forwarded_refl)
next
  case (2 P dc)
  show ?case by (simp add: forwarded_refl)
next
  case (3 P dc s ss)
  show ?case
  proof (cases "receive_ret s = 0")
    case True
    with "3.IH"(1) [OF True] show ?thesis by simp
  next
    case nz: False
    show ?thesis
    proof (cases "receive_ret s = AVERROR (EAGAIN P)")
      case again: True
      show ?thesis
      proof (cases "queue_extract (decoder_context.packet_queue dc)")
        case None
        with nz again show ?thesis by (simp add: forwarded_refl)
      next
        case (Some a)
        obtain packet q where a: "a = (packet, q)" by (cases a)
        from Some a have pq: "decoder_context.packet_queue dc = packet # q"
          by (simp add: queue_extract_Some)
        obtain st ctx where sp:
          "supply_packet P (decoder_context.avctx dc) packet (send_ret s) = (st, ctx)"
          by (cases "supply_packet P (decoder_context.avctx dc) packet (send_ret s)")
        from supply_packet_snd [of P "decoder_context.avctx dc" packet "send_ret s"] sp
        have ctx: "sent ctx = sent (decoder_context.avctx dc) @ [packet]"
          by simp
        show ?thesis
        proof (cases st)
          case None
          from "3.IH"(2) [OF nz again Some a [symmetric] sp [symmetric] None]
          have "forwarded q
              (decoder_context.packet_queue (exit_state (decoder_loop P True
                 (dc\<lparr>decoder_context.packet_queue := q, decoder_context.avctx := ctx\<rparr>) ss)))
              (sent (decoder_context.avctx dc) @ [packet])
              (sent (decoder_context.avctx (exit_state (decoder_loop P True
                 (dc\<lparr>decoder_context.packet_queue := q, decoder_context.avctx := ctx\<rparr>) ss))))"
            using ctx by simp
          from forwarded_step [OF this] pq nz again Some a sp None
          show ?thesis by simp
        next
          case (Some oc)
          have "forwarded (packet # q) q (sent (decoder_context.avctx dc))
              (sent (decoder_context.avctx dc) @ [packet])"
            by (rule forwarded_step) (rule forwarded_refl)
          with nz again \<open>queue_extract (decoder_context.packet_queue dc) = Some a\<close>
            a sp Some pq ctx
          show ?thesis by simp
        qed
      qed
    next
      case na: False
      show ?thesis
      proof (cases "receive_ret s = AVERROR_EOF P")
        case True
        with nz na show ?thesis by (simp add: forwarded_refl)
      next
        case ne: False
        show ?thesis
        proof (cases "receive_ret s = AVERROR (EINVAL P)")
          case True
          with nz na ne show ?thesis by (simp add: pexit_def forwarded_refl)
        next
          case False
          with nz na ne "3.IH"(3) [OF nz na ne False]
          show ?thesis by simp
        qed
      qed
    qed
  qed
qed

lemma decoder_thread_forwards:
  "forwarded (decoder_context.packet_queue dc)
     (decoder_context.packet_queue (snd (decoder_thread P frame0 dc script)))
     (sent (decoder_context.avctx dc))
     (sent (decoder_context.avctx (snd (decoder_thread P frame0 dc script))))"
  using decoder_loop_forwards [where P = P and a = frame0 and dc = dc and script = script]
  by (cases "decoder_loop P frame0 dc script") (simp_all add: decoder_thread_def)

lemma decoder_thread_main_forwards:
  "case snd (snd (decoder_thread_main P env frame0 m script)) of
     None \<Rightarrow> main_decoder_context.packet_queue (fst (snd (decoder_thread_main P env frame0 m script)))
              = main_decoder_context.packet_queue m
   | Some ctx \<Rightarrow>
       forwarded (main_decoder_context.packet_queue m)
         (main_decoder_context.packet_queue (fst (snd (decoder_thread_main P env frame0 m script))))
         [] (sent ctx)"
proof (cases "open_decoder env (main_decoder_context.format_ctx m)
                (main_decoder_context.stream_index m)")
  case (Inl oc)
  then show ?thesis
    by (simp add: decoder_thread_main_def)
next
  case (Inr ctx)
  then have empty: "sent ctx = []"
    by (auto simp: open_decoder_def split: option.splits if_splits)
  show ?thesis
  proof (cases frame0)
    case False
    with Inr empty show ?thesis
      by (simp add: decoder_thread_main_def forwarded_refl)
  next
    case True
    define dc where "dc =
      \<lparr>decoder_context.packet_queue = main_decoder_context.packet_queue m,
       decoder_context.frame_queue = main_decoder_context.frame_queue m,
       decoder_context.avctx = ctx\<rparr>"
    have "same_view dc (m, ctx)"
      by (simp add: same_view_def dc_def)
    from decoder_loops_agree [OF this, of P script]
    have agree: "exits_agree (decoder_loop P True dc script)
        (decoder_loop_main P (m, ctx) script)" .
    have f: "forwarded (main_decoder_context.packet_queue m)
        (decoder_context.packet_queue (exit_state (decoder_loop P True dc script)))
        [] (sent (decoder_context.avctx (exit_state (decoder_loop P True dc script))))"
      using decoder_loop_forwards [where P = P and a = True and dc = dc and script = script] empty
      by (simp add: dc_def)
    from agree f Inr True show ?thesis
      by (cases "decoder_loop P True dc script";
          cases "decoder_loop_main P (m, ctx) script")
         (auto simp: decoder_thread_main_def same_view_def)
  qed
qed

lemma prefix_sentinel_last:
  "q0 = taken @ q \<Longrightarrow> None \<notin> set (butlast q0) \<Longrightarrow> None \<notin> set (butlast taken)"
  by (cases "q = []") (auto simp: butlast_append dest: in_set_butlastD)

text \<open>
  C3, as the spec states it, fails for one queue: the encoder has two
  downstream queues, the packet queue and the lag queue. In this run the
  encoder submits one frame, dequeues the sentinel and returns; the packet
  queue has received the sentinel, the lag queue holds the time stamp of the
  frame and no sentinel.
\<close>

theorem lag_queue_no_sentinel_counterexample:
  "fst (encoder_thread linux_amd64 True encoder0 [feeding 0 True, feeding 0 True])
     = Returned 0
   \<and> encoder_context.frame_queue
       (snd (encoder_thread linux_amd64 True encoder0 [feeding 0 True, feeding 0 True]))
     = []
   \<and> encoder_context.packet_queue
       (snd (encoder_thread linux_amd64 True encoder0 [feeding 0 True, feeding 0 True]))
     = [None]
   \<and> lag_queue
       (snd (encoder_thread linux_amd64 True encoder0 [feeding 0 True, feeding 0 True]))
     = [Some 1000]
   \<and> count_list
       (lag_queue
         (snd (encoder_thread linux_amd64 True encoder0 [feeding 0 True, feeding 0 True])))
       None
     = 0"
  by (simp add: encoder_thread_def encoder0_def feeding_def frame1_def linux_amd64_def
        AVERROR_def queue_extract_def queue_append_def encoder_feed_def
        av_frame_new_side_data_def foveation_descriptor_def supply_frame_def descr_size_def
        float_div_def float_of_int_def rounding_exact mk_packet_def)

text \<open>
  C3, amended: the claim holds of the packet and frame queues, and the lag queue
  is the exception.

  \<^item> Placed on the queue. In every run of a stage (the reader, the decoder of
    codec.c, the decoder of main.c, the encoder) the stage only appends to its
    downstream packet or frame queue; a run that returns has appended exactly
    one null entry, after the loop and as the last item, and a run that has
    not returned has appended none.
  \<^item> The lag queue. In every run of the encoder the lag queue only receives
    time stamps, never a null entry.
  \<^item> Dequeued from the queue. The encoder dequeues non-null frames and at most
    one sentinel; when it has dequeued the sentinel it has dequeued nothing
    after it and has returned. A decoder dequeues from the front of its packet
    queue, so when the sentinel is the last item of the queue nothing is
    dequeued after it.
  \<^item> The reader. A reader whose reads and allocations succeed until the input
    answers end-of-stream returns (and so has enqueued the sentinel).
  \<^item> Propagation. The encoder that dequeues the sentinel, or whose codec
    answers end-of-stream, leaves the loop and returns with the sentinel
    enqueued. A decoder hands every item it dequeues to its codec in the order
    of the queue, the sentinel included (the request to drain), and goes on;
    when the codec answers end-of-stream it leaves the loop and returns with
    the sentinel enqueued.
\<close>

theorem one_sentinel_when_loop_exits:
  "sentinel_rule (fst (reader_thread P r rscript)) (reader_context.packet_queue r)
     (reader_context.packet_queue (snd (reader_thread P r rscript)))
   \<and> sentinel_rule (fst (decoder_thread P frame0 dc dscript)) (decoder_context.frame_queue dc)
       (decoder_context.frame_queue (snd (decoder_thread P frame0 dc dscript)))
   \<and> sentinel_rule (fst (decoder_thread_main P env frame0 m dscript))
       (main_decoder_context.frame_queue m)
       (main_decoder_context.frame_queue (fst (snd (decoder_thread_main P env frame0 m dscript))))
   \<and> sentinel_rule (fst (encoder_thread P packet0 ec escript))
       (encoder_context.packet_queue ec)
       (encoder_context.packet_queue (snd (encoder_thread P packet0 ec escript)))
   \<and> ((\<forall>s \<in> set steps. malloc_ok s \<and> ret s \<noteq> AVERROR_EOF P \<and> \<not> ret s < 0)
        \<and> malloc_ok (e::read_step) \<and> ret e = AVERROR_EOF P
      \<longrightarrow> fst (reader_thread P r (steps @ [e])) = Returned 0)
   \<and> (receive_ret es \<noteq> 0 \<and> receive_ret es = AVERROR (EAGAIN P)
        \<and> encoder_context.frame_queue ec1 = None # fq
      \<longrightarrow> encoder_thread P True ec1 (es # ess)
          = (Returned 0,
             ec1\<lparr>encoder_context.frame_queue := fq,
                 encoder_context.packet_queue := encoder_context.packet_queue ec1 @ [None]\<rparr>))
   \<and> (receive_ret ds \<noteq> 0 \<and> receive_ret ds = AVERROR (EAGAIN P)
        \<and> decoder_context.packet_queue dc1 = None # pq
        \<and> fst (supply_packet P (decoder_context.avctx dc1) None (send_ret ds)) = None
      \<longrightarrow> decoder_thread P True dc1 (ds # dss)
          = decoder_thread P True
              (dc1\<lparr>decoder_context.packet_queue := pq,
                   decoder_context.avctx :=
                     (decoder_context.avctx dc1)
                       \<lparr>sent := sent (decoder_context.avctx dc1) @ [None]\<rparr>\<rparr>) dss)
   \<and> (receive_ret ds2 \<noteq> 0 \<and> receive_ret ds2 \<noteq> AVERROR (EAGAIN P)
        \<and> receive_ret ds2 = AVERROR_EOF P
      \<longrightarrow> decoder_thread P True dc1 (ds2 # dss)
          = (Returned 0,
             dc1\<lparr>decoder_context.frame_queue := decoder_context.frame_queue dc1 @ [None]\<rparr>))
   \<and> (receive_ret es2 \<noteq> 0 \<and> receive_ret es2 \<noteq> AVERROR (EAGAIN P)
        \<and> receive_ret es2 = AVERROR_EOF P
      \<longrightarrow> encoder_thread P True ec1 (es2 # ess)
          = (Returned 0,
             ec1\<lparr>encoder_context.packet_queue := encoder_context.packet_queue ec1 @ [None]\<rparr>))
   \<and> appended (lag_queue ec) (lag_queue (snd (encoder_thread P packet0 ec escript)))
   \<and> (took_payloads (encoder_context.frame_queue ec)
         (encoder_context.frame_queue (snd (encoder_thread P packet0 ec escript)))
       \<or> took_sentinel (encoder_context.frame_queue ec)
            (encoder_context.frame_queue (snd (encoder_thread P packet0 ec escript)))
          \<and> fst (encoder_thread P packet0 ec escript) = Returned 0)
   \<and> (\<exists>taken.
         decoder_context.packet_queue dc
           = taken @ decoder_context.packet_queue (snd (decoder_thread P frame0 dc dscript))
         \<and> sent (decoder_context.avctx (snd (decoder_thread P frame0 dc dscript)))
           = sent (decoder_context.avctx dc) @ taken
         \<and> (None \<notin> set (butlast (decoder_context.packet_queue dc))
            \<longrightarrow> None \<notin> set (butlast taken)))
   \<and> (case snd (snd (decoder_thread_main P env frame0 m dscript)) of
         None \<Rightarrow>
           main_decoder_context.packet_queue (fst (snd (decoder_thread_main P env frame0 m dscript)))
             = main_decoder_context.packet_queue m
       | Some ctx \<Rightarrow>
           (\<exists>taken.
              main_decoder_context.packet_queue m
                = taken @ main_decoder_context.packet_queue
                            (fst (snd (decoder_thread_main P env frame0 m dscript)))
              \<and> sent ctx = taken
              \<and> (None \<notin> set (butlast (main_decoder_context.packet_queue m))
                 \<longrightarrow> None \<notin> set (butlast taken))))"
proof -
  have returns: "(\<forall>s \<in> set steps. malloc_ok s \<and> ret s \<noteq> AVERROR_EOF P \<and> \<not> ret s < 0)
        \<and> malloc_ok (e::read_step) \<and> ret e = AVERROR_EOF P
      \<longrightarrow> fst (reader_thread P r (steps @ [e])) = Returned 0"
    by (simp add: reader_thread_def reader_loop_reads)
  have enc: "receive_ret es \<noteq> 0 \<and> receive_ret es = AVERROR (EAGAIN P)
        \<and> encoder_context.frame_queue ec1 = None # fq
      \<longrightarrow> encoder_thread P True ec1 (es # ess)
          = (Returned 0,
             ec1\<lparr>encoder_context.frame_queue := fq,
                 encoder_context.packet_queue := encoder_context.packet_queue ec1 @ [None]\<rparr>)"
    by (simp add: encoder_thread_def queue_extract_def queue_append_def)
  have drain: "receive_ret ds \<noteq> 0 \<and> receive_ret ds = AVERROR (EAGAIN P)
        \<and> decoder_context.packet_queue dc1 = None # pq
        \<and> fst (supply_packet P (decoder_context.avctx dc1) None (send_ret ds)) = None
      \<longrightarrow> decoder_thread P True dc1 (ds # dss)
          = decoder_thread P True
              (dc1\<lparr>decoder_context.packet_queue := pq,
                   decoder_context.avctx :=
                     (decoder_context.avctx dc1)
                       \<lparr>sent := sent (decoder_context.avctx dc1) @ [None]\<rparr>\<rparr>) dss"
  proof (intro impI)
    assume a: "receive_ret ds \<noteq> 0 \<and> receive_ret ds = AVERROR (EAGAIN P)
        \<and> decoder_context.packet_queue dc1 = None # pq
        \<and> fst (supply_packet P (decoder_context.avctx dc1) None (send_ret ds)) = None"
    have "snd (supply_packet P (decoder_context.avctx dc1) None (send_ret ds))
        = (decoder_context.avctx dc1)\<lparr>sent := sent (decoder_context.avctx dc1) @ [None]\<rparr>"
      by (simp add: supply_packet_def Let_def)
    with a show "decoder_thread P True dc1 (ds # dss)
          = decoder_thread P True
              (dc1\<lparr>decoder_context.packet_queue := pq,
                   decoder_context.avctx :=
                     (decoder_context.avctx dc1)
                       \<lparr>sent := sent (decoder_context.avctx dc1) @ [None]\<rparr>\<rparr>) dss"
      by (cases "supply_packet P (decoder_context.avctx dc1) None (send_ret ds)")
         (simp add: decoder_thread_def queue_extract_def)
  qed
  have eof: "receive_ret ds2 \<noteq> 0 \<and> receive_ret ds2 \<noteq> AVERROR (EAGAIN P)
        \<and> receive_ret ds2 = AVERROR_EOF P
      \<longrightarrow> decoder_thread P True dc1 (ds2 # dss)
          = (Returned 0,
             dc1\<lparr>decoder_context.frame_queue := decoder_context.frame_queue dc1 @ [None]\<rparr>)"
    by (simp add: decoder_thread_def queue_append_def)
  have enc_eof: "receive_ret es2 \<noteq> 0 \<and> receive_ret es2 \<noteq> AVERROR (EAGAIN P)
        \<and> receive_ret es2 = AVERROR_EOF P
      \<longrightarrow> encoder_thread P True ec1 (es2 # ess)
          = (Returned 0,
             ec1\<lparr>encoder_context.packet_queue := encoder_context.packet_queue ec1 @ [None]\<rparr>)"
    by (simp add: encoder_thread_def queue_append_def)
  have dec: "\<exists>taken.
         decoder_context.packet_queue dc
           = taken @ decoder_context.packet_queue (snd (decoder_thread P frame0 dc dscript))
         \<and> sent (decoder_context.avctx (snd (decoder_thread P frame0 dc dscript)))
           = sent (decoder_context.avctx dc) @ taken
         \<and> (None \<notin> set (butlast (decoder_context.packet_queue dc))
            \<longrightarrow> None \<notin> set (butlast taken))"
  proof -
    from decoder_thread_forwards [of dc P frame0 dscript]
    obtain taken where t:
      "decoder_context.packet_queue dc
         = taken @ decoder_context.packet_queue (snd (decoder_thread P frame0 dc dscript))"
      "sent (decoder_context.avctx (snd (decoder_thread P frame0 dc dscript)))
         = sent (decoder_context.avctx dc) @ taken"
      unfolding forwarded_def by blast
    from prefix_sentinel_last [OF t(1)]
    have "None \<notin> set (butlast (decoder_context.packet_queue dc))
        \<longrightarrow> None \<notin> set (butlast taken)"
      by blast
    with t show ?thesis by blast
  qed
  have dec_main: "case snd (snd (decoder_thread_main P env frame0 m dscript)) of
         None \<Rightarrow>
           main_decoder_context.packet_queue (fst (snd (decoder_thread_main P env frame0 m dscript)))
             = main_decoder_context.packet_queue m
       | Some ctx \<Rightarrow>
           (\<exists>taken.
              main_decoder_context.packet_queue m
                = taken @ main_decoder_context.packet_queue
                            (fst (snd (decoder_thread_main P env frame0 m dscript)))
              \<and> sent ctx = taken
              \<and> (None \<notin> set (butlast (main_decoder_context.packet_queue m))
                 \<longrightarrow> None \<notin> set (butlast taken)))"
  proof (cases "snd (snd (decoder_thread_main P env frame0 m dscript))")
    case None
    with decoder_thread_main_forwards [of P env frame0 m dscript]
    show ?thesis by simp
  next
    case (Some ctx)
    with decoder_thread_main_forwards [of P env frame0 m dscript]
    have "forwarded (main_decoder_context.packet_queue m)
        (main_decoder_context.packet_queue (fst (snd (decoder_thread_main P env frame0 m dscript))))
        [] (sent ctx)"
      by simp
    then obtain taken where t:
      "main_decoder_context.packet_queue m
         = taken @ main_decoder_context.packet_queue
                     (fst (snd (decoder_thread_main P env frame0 m dscript)))"
      "sent ctx = taken"
      unfolding forwarded_def by auto
    from prefix_sentinel_last [OF t(1)]
    have "None \<notin> set (butlast (main_decoder_context.packet_queue m))
        \<longrightarrow> None \<notin> set (butlast taken)"
      by blast
    with t Some show ?thesis by auto
  qed
  show ?thesis
    by (intro conjI reader_thread_sentinel decoder_thread_sentinel
          decoder_thread_main_sentinel encoder_thread_sentinel returns enc drain eof enc_eof
          encoder_thread_lag_queue encoder_thread_dequeues dec dec_main)
qed

theorem one_sentinel_when_loop_exits_witness:
  "reader_thread linux_amd64 reader0
       [reading 0 (mk_packet (Some 1) 0 10), reading (- 541478725) (mk_packet None 0 0)]
     = (Returned 0,
        reader0\<lparr>reader_context.packet_queue := [Some (mk_packet (Some 1) 0 10), None],
                reader_context.format_ctx := None\<rparr>)
   \<and> decoder_thread linux_amd64 True decoder0
       [decoding (- 11) 0, decoding 0 0, decoding (- 11) 0, decoding (- 541478725) 0]
     = (Returned 0,
        decoder0\<lparr>decoder_context.packet_queue := [],
                 decoder_context.frame_queue := [Some frame1, None],
                 decoder_context.avctx := \<lparr>sent = [Some (mk_packet (Some 1) 0 10), None]\<rparr>\<rparr>)
   \<and> sentinel_rule (Returned 0) [] [Some frame1, None]
   \<and> encoder_context.packet_queue
        (snd (encoder_thread linux_amd64 True encoder0
               [feeding 0 True, (feeding 0 True)\<lparr>receive_ret := 0\<rparr>, feeding 0 True]))
     = [Some (mk_packet None 0 0), None]
   \<and> encoder_context.frame_queue
        (snd (encoder_thread linux_amd64 True encoder0
               [feeding 0 True, (feeding 0 True)\<lparr>receive_ret := 0\<rparr>, feeding 0 True]))
     = []
   \<and> lag_queue
        (snd (encoder_thread linux_amd64 True encoder0
               [feeding 0 True, (feeding 0 True)\<lparr>receive_ret := 0\<rparr>, feeding 0 True]))
     = [Some 1000]
   \<and> encoder_thread linux_amd64 True (encoder0\<lparr>encoder_context.frame_queue := [None]\<rparr>)
        [feeding 0 True]
     = (Returned 0,
        encoder0\<lparr>encoder_context.frame_queue := [],
                 encoder_context.packet_queue := [None]\<rparr>)
   \<and> encoder_thread linux_amd64 True (encoder0\<lparr>encoder_context.frame_queue := [None]\<rparr>)
        [(feeding 0 True)\<lparr>receive_ret := - 541478725\<rparr>]
     = (Returned 0,
        encoder0\<lparr>encoder_context.frame_queue := [None],
                 encoder_context.packet_queue := [None]\<rparr>)
   \<and> decoder_thread linux_amd64 True (decoder0\<lparr>decoder_context.packet_queue := [None]\<rparr>)
        [decoding (- 11) 0]
     = (Running,
        decoder0\<lparr>decoder_context.packet_queue := [],
                 decoder_context.avctx := \<lparr>sent = [None]\<rparr>\<rparr>)
   \<and> decoder_thread linux_amd64 True (decoder0\<lparr>decoder_context.packet_queue := [None]\<rparr>)
        [decoding (- 541478725) 0]
     = (Returned 0,
        decoder0\<lparr>decoder_context.packet_queue := [None],
                 decoder_context.frame_queue := [None]\<rparr>)"
  using one_sentinel_when_loop_exits
      [of linux_amd64 reader0
          "[reading 0 (mk_packet (Some 1) 0 10), reading (- 541478725) (mk_packet None 0 0)]"
          True decoder0
          "[decoding (- 11) 0, decoding 0 0, decoding (- 11) 0, decoding (- 541478725) 0]"
          open_fine main_decoder0
          True encoder0
          "[feeding 0 True, (feeding 0 True)\<lparr>receive_ret := 0\<rparr>, feeding 0 True]"
          "[reading 0 (mk_packet (Some 1) 0 10)]"
          "reading (- 541478725) (mk_packet None 0 0)"
          "feeding 0 True" "encoder0\<lparr>encoder_context.frame_queue := [None]\<rparr>" "[]" "[]"
          "decoding (- 11) 0" "decoder0\<lparr>decoder_context.packet_queue := [None]\<rparr>" "[]" "[]"
          "decoding (- 541478725) 0"
          "(feeding 0 True)\<lparr>receive_ret := - 541478725\<rparr>"]
  by (simp add: reader_thread_def reading_def mk_packet_def linux_amd64_def reader0_def
        enqueue_def sentinel_rule_def
        decoder_thread_def decoder0_def decoding_def supply_packet_def
        encoder_thread_def encoder0_def feeding_def frame1_def
        AVERROR_def queue_extract_def queue_append_def encoder_feed_def
        av_frame_new_side_data_def foveation_descriptor_def supply_frame_def descr_size_def
        float_div_def float_of_int_def rounding_exact)

section \<open>Return values of the send calls\<close>

text \<open>
  C9. Let \<open>r\<close> be a return value of the send call other than
  \<^verbatim>\<open>AVERROR(EAGAIN)\<close>, \<^verbatim>\<open>AVERROR_EOF\<close>, \<^verbatim>\<open>AVERROR(EINVAL)\<close> and
  \<^verbatim>\<open>AVERROR(ENOMEM)\<close> (0 or anything else). Then \<^verbatim>\<open>supply_packet\<close> (in main.c
  and in codec.c) and \<^verbatim>\<open>supply_frame\<close> return without \<^verbatim>\<open>pexit\<close>, and the
  callers go on as after an accepted unit: main.c's decoder loop continues with
  the next iteration, and the encoder loop finishes the feeding branch, which
  enqueues the time stamp, and continues with the next iteration.
\<close>

theorem unlisted_send_result_counts_as_success:
  assumes "r \<notin> {AVERROR (EAGAIN P), AVERROR_EOF P, AVERROR (EINVAL P), AVERROR (ENOMEM P)}"
  shows "supply_packet_main P ctx p r = (None, ctx\<lparr>sent := sent ctx @ [p]\<rparr>)
       \<and> supply_packet P ctx p r = (None, ctx\<lparr>sent := sent ctx @ [p]\<rparr>)
       \<and> supply_frame P fctx f r = (None, fctx\<lparr>sent := sent fctx @ [f]\<rparr>)
       \<and> (receive_ret s \<noteq> 0 \<and> receive_ret s = AVERROR (EAGAIN P) \<and> send_ret s = r
            \<and> main_decoder_context.packet_queue m = p # q
          \<longrightarrow> decoder_loop_main P (m, ctx) (s # ss)
              = decoder_loop_main P
                  (m\<lparr>main_decoder_context.packet_queue := q\<rparr>,
                   ctx\<lparr>sent := sent ctx @ [p]\<rparr>) ss)
       \<and> (receive_ret es \<noteq> 0 \<and> receive_ret es = AVERROR (EAGAIN P) \<and> send_ret es = r
            \<and> encoder_context.frame_queue ec = Some f # fq
            \<and> side_data_ok es \<and> descr_malloc_ok es \<and> timestamp_malloc_ok es
          \<longrightarrow> fst (encoder_feed P (ec\<lparr>encoder_context.frame_queue := fq\<rparr>) f es) = None
              \<and> lag_queue (snd (encoder_feed P (ec\<lparr>encoder_context.frame_queue := fq\<rparr>) f es))
                  = lag_queue ec @ [Some (now es)]
              \<and> encoder_loop P True ec (es # ess)
                  = encoder_loop P True
                      (snd (encoder_feed P (ec\<lparr>encoder_context.frame_queue := fq\<rparr>) f es)) ess)"
proof -
  have sf: "\<And>c x. supply_frame P c x r = (None, c\<lparr>sent := sent c @ [x]\<rparr>)"
    using assms by (simp add: supply_frame_def Let_def)
  have sp: "\<And>c x. supply_packet P c x r = (None, c\<lparr>sent := sent c @ [x]\<rparr>)"
    using assms by (simp add: supply_packet_def Let_def)
  have spm: "\<And>c x. supply_packet_main P c x r = (None, c\<lparr>sent := sent c @ [x]\<rparr>)"
    using assms by (simp add: supply_packet_main_def Let_def)
  have dec: "receive_ret s \<noteq> 0 \<and> receive_ret s = AVERROR (EAGAIN P) \<and> send_ret s = r
            \<and> main_decoder_context.packet_queue m = p # q
          \<longrightarrow> decoder_loop_main P (m, ctx) (s # ss)
              = decoder_loop_main P
                  (m\<lparr>main_decoder_context.packet_queue := q\<rparr>,
                   ctx\<lparr>sent := sent ctx @ [p]\<rparr>) ss"
    by (simp add: dequeue_def spm)
  have enc: "receive_ret es \<noteq> 0 \<and> receive_ret es = AVERROR (EAGAIN P) \<and> send_ret es = r
            \<and> encoder_context.frame_queue ec = Some f # fq
            \<and> side_data_ok es \<and> descr_malloc_ok es \<and> timestamp_malloc_ok es
          \<longrightarrow> fst (encoder_feed P (ec\<lparr>encoder_context.frame_queue := fq\<rparr>) f es) = None
              \<and> lag_queue (snd (encoder_feed P (ec\<lparr>encoder_context.frame_queue := fq\<rparr>) f es))
                  = lag_queue ec @ [Some (now es)]
              \<and> encoder_loop P True ec (es # ess)
                  = encoder_loop P True
                      (snd (encoder_feed P (ec\<lparr>encoder_context.frame_queue := fq\<rparr>) f es)) ess"
  proof (intro impI)
    assume a: "receive_ret es \<noteq> 0 \<and> receive_ret es = AVERROR (EAGAIN P) \<and> send_ret es = r
            \<and> encoder_context.frame_queue ec = Some f # fq
            \<and> side_data_ok es \<and> descr_malloc_ok es \<and> timestamp_malloc_ok es"
    then have fd: "fst (encoder_feed P (ec\<lparr>encoder_context.frame_queue := fq\<rparr>) f es) = None"
      and lg: "lag_queue (snd (encoder_feed P (ec\<lparr>encoder_context.frame_queue := fq\<rparr>) f es))
                  = lag_queue ec @ [Some (now es)]"
      by (simp_all add: encoder_feed_def av_frame_new_side_data_def
            foveation_descriptor_def Let_def sf queue_append_def)
    from a fd have "encoder_loop P True ec (es # ess)
        = encoder_loop P True
            (snd (encoder_feed P (ec\<lparr>encoder_context.frame_queue := fq\<rparr>) f es)) ess"
      by (cases "encoder_feed P (ec\<lparr>encoder_context.frame_queue := fq\<rparr>) f es")
         (simp add: queue_extract_def)
    with fd lg show "fst (encoder_feed P (ec\<lparr>encoder_context.frame_queue := fq\<rparr>) f es) = None
        \<and> lag_queue (snd (encoder_feed P (ec\<lparr>encoder_context.frame_queue := fq\<rparr>) f es))
            = lag_queue ec @ [Some (now es)]
        \<and> encoder_loop P True ec (es # ess)
            = encoder_loop P True
                (snd (encoder_feed P (ec\<lparr>encoder_context.frame_queue := fq\<rparr>) f es)) ess"
      by simp
  qed
  from sf sp spm dec enc show ?thesis by simp
qed

theorem unlisted_send_result_counts_as_success_witness:
  "supply_packet_main linux_amd64 \<lparr>sent = []\<rparr> (Some (mk_packet (Some 1) 0 10)) (- 1)
     = (None, \<lparr>sent = [Some (mk_packet (Some 1) 0 10)]\<rparr>)
   \<and> supply_frame linux_amd64 \<lparr>sent = []\<rparr> frame1 (- 1) = (None, \<lparr>sent = [frame1]\<rparr>)
   \<and> fst (decoder_thread_main linux_amd64 open_fine True main_decoder0
        [decoding (- 11) (- 1), decoding (- 541478725) 0]) = Returned 0
   \<and> lag_queue (snd (encoder_thread linux_amd64 True encoder0
        [feeding (- 1) True, feeding 0 True])) = [Some 1000]"
  using unlisted_send_result_counts_as_success
      [of "- 1" linux_amd64 "\<lparr>sent = []\<rparr>" "Some (mk_packet (Some 1) 0 10)"
          "\<lparr>sent = []\<rparr>" frame1 "decoding (- 11) (- 1)" main_decoder0 "[None]"
          "[decoding (- 541478725) 0]" "feeding (- 1) True" encoder0 "[None]"
          "[feeding 0 True]"]
  by (simp add: linux_amd64_def AVERROR_def decoder_thread_main_def open_decoder_def
        open_fine_def main_decoder0_def decoding_def encoder_thread_def encoder0_def
        feeding_def queue_extract_def queue_append_def dequeue_def enqueue_def
        supply_packet_main_def supply_frame_def encoder_feed_def
        av_frame_new_side_data_def foveation_descriptor_def descr_size_def)

section \<open>The gaze provider\<close>

lemma rounded_quotient_in_unit_interval:
  assumes "mono (fround P)" and "fround P 0 = 0" and "fround P 1 = 1"
    and "0 \<le> a" and "a \<le> b" and "0 < b"
  shows "\<exists>x. float_div P (float_of_int P a) (float_of_int P b) = Finite x \<and> 0 \<le> x \<and> x \<le> 1"
proof -
  let ?a = "fround P (of_int a)" and ?b = "fround P (of_int b)"
  have i: "(1::real) \<le> of_int b" "(0::real) \<le> of_int a" "(of_int a::real) \<le> of_int b"
    using assms(4,5,6) by simp_all
  have "fround P 1 \<le> ?b"
    by (rule monoD [OF assms(1) i(1)])
  with assms(3) have b: "1 \<le> ?b" by simp
  have "fround P 0 \<le> ?a"
    by (rule monoD [OF assms(1) i(2)])
  with assms(2) have a: "0 \<le> ?a" by simp
  have ab: "?a \<le> ?b"
    by (rule monoD [OF assms(1) i(3)])
  from a b ab have q: "0 \<le> ?a / ?b" "?a / ?b \<le> 1"
    by (simp_all add: divide_le_eq)
  from monoD [OF assms(1) q(1)] monoD [OF assms(1) q(2)] assms(2,3)
  have "0 \<le> fround P (?a / ?b)" "fround P (?a / ?b) \<le> 1" by simp_all
  with b show ?thesis
    by (simp add: float_div_def float_of_int_def)
qed

text \<open>
  The error of a quotient of two rounded numbers that is rounded itself: three
  relative errors of at most \<open>e\<close> make one of at most \<open>4 e\<close>.
\<close>

lemma relative_error_factor:
  fixes X x e :: real
  assumes "\<bar>X - x\<bar> \<le> \<bar>x\<bar> * e" and "0 \<le> e"
  obtains d where "\<bar>d\<bar> \<le> e" and "X = x * (1 + d)"
proof (cases "x = 0")
  case True
  with assms(1) have "X = x * (1 + 0)" by simp
  with assms(2) show ?thesis by (intro that [of 0]) simp_all
next
  case False
  then have "0 < \<bar>x\<bar>" by simp
  have "\<bar>(X - x) / x\<bar> = \<bar>X - x\<bar> / \<bar>x\<bar>"
    by (simp add: abs_divide)
  also have "\<dots> \<le> e"
    using assms(1) \<open>0 < \<bar>x\<bar>\<close> by (simp add: pos_divide_le_eq mult.commute)
  finally have "\<bar>(X - x) / x\<bar> \<le> e" .
  moreover have "X = x * (1 + (X - x) / x)"
    using False by (simp add: field_simps)
  ultimately show ?thesis by (rule that)
qed

lemma quotient_error:
  fixes a b A B Y e :: real
  assumes A: "\<bar>A - a\<bar> \<le> \<bar>a\<bar> * e" and B: "\<bar>B - b\<bar> \<le> \<bar>b\<bar> * e"
    and Y: "\<bar>Y - A / B\<bar> \<le> \<bar>A / B\<bar> * e"
    and b: "b \<noteq> 0" and e: "0 \<le> e" "e \<le> 1 / 5"
  shows "\<bar>Y - a / b\<bar> \<le> \<bar>a / b\<bar> * (4 * e)"
proof -
  from A e(1) obtain d1 where d1: "\<bar>d1\<bar> \<le> e" "A = a * (1 + d1)"
    by (rule relative_error_factor)
  from B e(1) obtain d2 where d2: "\<bar>d2\<bar> \<le> e" "B = b * (1 + d2)"
    by (rule relative_error_factor)
  from Y e(1) obtain d3 where d3: "\<bar>d3\<bar> \<le> e" "Y = A / B * (1 + d3)"
    by (rule relative_error_factor)
  from d2(1) e(2) have pos: "0 < 1 + d2" by linarith
  define n where "n = d1 + d3 + d1 * d3 - d2"
  have "Y = a / b * ((1 + d1) * (1 + d3) / (1 + d2))"
    using d1(2) d2(2) d3(2) b pos by (simp add: field_simps)
  also have "(1 + d1) * (1 + d3) / (1 + d2) = 1 + n / (1 + d2)"
    using pos by (simp add: n_def field_simps)
  finally have "Y - a / b = a / b * (n / (1 + d2))"
    by (simp add: algebra_simps)
  then have eq: "\<bar>Y - a / b\<bar> = \<bar>a / b\<bar> * (\<bar>n\<bar> / (1 + d2))"
    using pos by (simp add: abs_mult abs_divide)
  have "\<bar>d1 * d3\<bar> \<le> e * e"
    unfolding abs_mult by (rule mult_mono [OF d1(1) d3(1) e(1)]) simp
  with d1(1) d2(1) d3(1) have n: "\<bar>n\<bar> \<le> 3 * e + e * e"
    unfolding n_def by linarith
  have "e * e \<le> e * (1 / 5)"
    by (rule mult_left_mono [OF e(2) e(1)])
  moreover have "e * d2 \<ge> - (e * e)"
  proof -
    have "- e \<le> d2" using d2(1) by linarith
    from mult_left_mono [OF this e(1)] show ?thesis by simp
  qed
  ultimately have "3 * e + e * e \<le> 4 * e * (1 + d2)"
    by (simp add: algebra_simps)
  with n have "\<bar>n\<bar> \<le> 4 * e * (1 + d2)" by linarith
  with pos have "\<bar>n\<bar> / (1 + d2) \<le> 4 * e"
    by (simp add: pos_divide_le_eq)
  then have "\<bar>a / b\<bar> * (\<bar>n\<bar> / (1 + d2)) \<le> \<bar>a / b\<bar> * (4 * e)"
    by (rule mult_left_mono) simp
  with eq show ?thesis by simp
qed

text \<open>
  What follows from the accuracy of the rounding for the conversion of a
  32-bit integer other than 0.
\<close>

lemma float_of_int_near:
  assumes acc: "\<forall>x. 1 / 2 ^ 32 \<le> \<bar>x\<bar> \<and> \<bar>x\<bar> \<le> 2 ^ 32 \<longrightarrow> \<bar>fround P x - x\<bar> \<le> \<bar>x\<bar> / 2 ^ 24"
    and "a \<noteq> 0" and "\<bar>a\<bar> \<le> 2 ^ 31"
  shows "\<bar>float_of_int P a - of_int a\<bar> \<le> \<bar>of_int a\<bar> * (1 / 2 ^ 24)"
    and "3 / 4 \<le> \<bar>float_of_int P a\<bar>" and "\<bar>float_of_int P a\<bar> \<le> 3 * 2 ^ 30"
    and "0 < float_of_int P a \<longleftrightarrow> 0 < a"
proof -
  have lo: "(1::real) \<le> \<bar>of_int a\<bar>"
    using assms(2) by (simp flip: of_int_abs)
  have "\<bar>of_int a :: real\<bar> \<le> of_int (2 ^ 31)"
    using assms(3) unfolding of_int_abs [symmetric] by (subst of_int_le_iff)
  then have hi: "\<bar>of_int a :: real\<bar> \<le> 2 ^ 31"
    by simp
  from lo hi have "1 / 2 ^ 32 \<le> \<bar>of_int a :: real\<bar> \<and> \<bar>of_int a :: real\<bar> \<le> 2 ^ 32"
    by simp
  with acc have e: "\<bar>fround P (of_int a) - of_int a\<bar> \<le> \<bar>of_int a\<bar> / 2 ^ 24"
    by blast
  then show "\<bar>float_of_int P a - of_int a\<bar> \<le> \<bar>of_int a\<bar> * (1 / 2 ^ 24)"
    by (simp add: float_of_int_def)
  from e have e': "\<bar>fround P (of_int a) - of_int a\<bar> \<le> \<bar>of_int a\<bar> / 16777216"
    by simp
  from hi have hi': "\<bar>of_int a :: real\<bar> \<le> 2147483648"
    by simp
  from e' lo hi' show "3 / 4 \<le> \<bar>float_of_int P a\<bar>"
    unfolding float_of_int_def by linarith
  from e' lo hi' have "\<bar>fround P (of_int a)\<bar> \<le> 3221225472"
    by linarith
  then show "\<bar>float_of_int P a\<bar> \<le> 3 * 2 ^ 30"
    by (simp add: float_of_int_def)
  have "0 < (of_int a :: real) \<longleftrightarrow> 0 < a" by simp
  moreover from e' lo have "0 < fround P (of_int a) \<longleftrightarrow> 0 < (of_int a :: real)"
    by linarith
  ultimately show "0 < float_of_int P a \<longleftrightarrow> 0 < a"
    by (simp add: float_of_int_def)
qed


lemma float_div_approximates:
  assumes acc: "\<forall>x. 1 / 2 ^ 32 \<le> \<bar>x\<bar> \<and> \<bar>x\<bar> \<le> 2 ^ 32 \<longrightarrow> \<bar>fround P x - x\<bar> \<le> \<bar>x\<bar> / 2 ^ 24"
    and zero: "fround P 0 = 0"
    and a: "\<bar>a\<bar> \<le> 2 ^ 31" and b: "\<bar>b\<bar> \<le> 2 ^ 31"
  shows "approximates_quotient (float_div P (float_of_int P a) (float_of_int P b)) a b"
proof (cases "b = 0")
  case True
  then have fb: "float_of_int P b = 0"
    by (simp add: float_of_int_def zero)
  show ?thesis
  proof (cases "a = 0")
    case a0: True
    with True fb zero show ?thesis
      by (simp add: approximates_quotient_def float_div_def float_of_int_def)
  next
    case False
    from float_of_int_near(2,4) [OF acc False a]
    have "float_of_int P a \<noteq> 0" and "0 < float_of_int P a \<longleftrightarrow> 0 < a"
      by auto
    with True fb False show ?thesis
      by (simp add: approximates_quotient_def float_div_def)
  qed
next
  case bn: False
  from float_of_int_near(1,2,3) [OF acc bn b]
  have B: "\<bar>float_of_int P b - of_int b\<bar> \<le> \<bar>of_int b\<bar> * (1 / 2 ^ 24)"
    and Bl: "3 / 4 \<le> \<bar>float_of_int P b\<bar>" and Bh: "\<bar>float_of_int P b\<bar> \<le> 3 * 2 ^ 30"
    by simp_all
  from Bl have fb: "float_of_int P b \<noteq> 0" by auto
  let ?Y = "fround P (float_of_int P a / float_of_int P b)"
  have fd: "float_div P (float_of_int P a) (float_of_int P b) = Finite ?Y"
    using fb by (simp add: float_div_def)
  have "\<bar>?Y - of_int a / of_int b\<bar> \<le> \<bar>of_int a / of_int b\<bar> / 2 ^ 22"
  proof (cases "a = 0")
    case True
    then show ?thesis by (simp add: float_of_int_def zero)
  next
    case an: False
    from float_of_int_near(1,2,3) [OF acc an a]
    have A: "\<bar>float_of_int P a - of_int a\<bar> \<le> \<bar>of_int a\<bar> * (1 / 2 ^ 24)"
      and Al: "3 / 4 \<le> \<bar>float_of_int P a\<bar>" and Ah: "\<bar>float_of_int P a\<bar> \<le> 3 * 2 ^ 30"
      by simp_all
    have q: "\<bar>float_of_int P a / float_of_int P b\<bar> = \<bar>float_of_int P a\<bar> / \<bar>float_of_int P b\<bar>"
      by (simp add: abs_divide)
    from Bl have bp: "0 < \<bar>float_of_int P b\<bar>" by linarith
    have "\<bar>float_of_int P a\<bar> \<le> 4294967296 * \<bar>float_of_int P b\<bar>"
      using Ah Bl by simp
    then have hi: "\<bar>float_of_int P a\<bar> / \<bar>float_of_int P b\<bar> \<le> 2 ^ 32"
      using bp by (simp add: pos_divide_le_eq)
    have "\<bar>float_of_int P b\<bar> \<le> 4294967296 * \<bar>float_of_int P a\<bar>"
      using Al Bh by simp
    then have lo: "1 / 2 ^ 32 \<le> \<bar>float_of_int P a\<bar> / \<bar>float_of_int P b\<bar>"
      using bp by (simp add: pos_le_divide_eq)
    from acc lo hi
    have "\<bar>?Y - float_of_int P a / float_of_int P b\<bar>
        \<le> \<bar>float_of_int P a / float_of_int P b\<bar> / 2 ^ 24"
      unfolding q [symmetric] by blast
    then have Y: "\<bar>?Y - float_of_int P a / float_of_int P b\<bar>
        \<le> \<bar>float_of_int P a / float_of_int P b\<bar> * (1 / 2 ^ 24)"
      by simp
    have bn': "(of_int b :: real) \<noteq> 0" using bn by simp
    from quotient_error [OF A B Y bn']
    have "\<bar>?Y - of_int a / of_int b\<bar> \<le> \<bar>of_int a / of_int b\<bar> * (4 * (1 / 2 ^ 24))"
      by simp
    then show ?thesis by simp
  qed
  with bn fd show ?thesis
    by (simp add: approximates_quotient_def)
qed

lemma float_of_double_const_near:
  assumes acc: "\<forall>x. 1 / 2 ^ 32 \<le> \<bar>x\<bar> \<and> \<bar>x\<bar> \<le> 2 ^ 32 \<longrightarrow> \<bar>fround P x - x\<bar> \<le> \<bar>x\<bar> / 2 ^ 24"
    and dacc: "\<bar>dround P (3 / 10) - 3 / 10\<bar> \<le> (3 / 10) / 2 ^ 53"
  shows "\<bar>float_of_double_const P (3 / 10) - 3 / 10\<bar> \<le> (3 / 10) / 2 ^ 23"
proof -
  let ?D = "dround P (3 / 10)"
  from dacc have d: "\<bar>?D - 3 / 10\<bar> \<le> 3 / 90071992547409920"
    by simp
  then have "1 / 4294967296 \<le> \<bar>?D\<bar> \<and> \<bar>?D\<bar> \<le> 4294967296"
    by linarith
  then have "1 / 2 ^ 32 \<le> \<bar>?D\<bar> \<and> \<bar>?D\<bar> \<le> 2 ^ 32"
    by simp
  with acc have "\<bar>fround P ?D - ?D\<bar> \<le> \<bar>?D\<bar> / 2 ^ 24"
    by blast
  then have f: "\<bar>fround P ?D - ?D\<bar> \<le> \<bar>?D\<bar> / 16777216"
    by simp
  from d f have "\<bar>fround P ?D - 3 / 10\<bar> \<le> 3 / 83886080"
    by linarith
  then show ?thesis
    by (simp add: float_of_double_const_def)
qed

text \<open>
  C6. The platform's \<^verbatim>\<open>float\<close> rounding is taken to be monotone, exact on 0, 1
  and 20, and accurate to 24 bits for magnitudes from \<open>1 / 2 ^ 32\<close> to \<open>2 ^ 32\<close>; the
  \<^verbatim>\<open>double\<close> nearest to \<open>0.3\<close> is accurate to 53 bits; the pointer position
  \<open>(mx, my)\<close> and the window size \<open>(W, H)\<close> are \<^verbatim>\<open>int\<close>s of 32 bits. Then a call
  of \<^verbatim>\<open>foveation_descriptor\<close> (compiled without \<^verbatim>\<open>ET\<close>) ends in \<^verbatim>\<open>pexit\<close> when
  \<^verbatim>\<open>malloc\<close> returns no block, and otherwise returns a block of four floats
  and stores the pointer position in the window context. The first float is
  the quotient \<open>mx / W\<close> and the second the quotient \<open>my / H\<close>, each within the
  relative error \<open>1 / 2 ^ 22\<close>; the third is within \<open>0.3 / 2 ^ 23\<close> of \<open>0.3\<close>; the fourth
  is 20. For a pointer inside the window (\<open>0 \<le> mx \<le> W\<close>, \<open>0 < W\<close> and
  \<open>0 \<le> my \<le> H\<close>, \<open>0 < H\<close>) the first two floats are finite and lie between 0
  and 1.
\<close>

theorem fallback_descriptor_values:
  assumes "mono (fround P)" and "fround P 0 = 0" and "fround P 1 = 1" and "fround P 20 = 20"
    and "\<forall>x. 1 / 2 ^ 32 \<le> \<bar>x\<bar> \<and> \<bar>x\<bar> \<le> 2 ^ 32 \<longrightarrow> \<bar>fround P x - x\<bar> \<le> \<bar>x\<bar> / 2 ^ 24"
    and "\<bar>dround P (3 / 10) - 3 / 10\<bar> \<le> (3 / 10) / 2 ^ 53"
    and "\<bar>mx\<bar> \<le> 2 ^ 31" and "\<bar>my\<bar> \<le> 2 ^ 31" and "\<bar>W\<bar> \<le> 2 ^ 31" and "\<bar>H\<bar> \<le> 2 ^ 31"
  shows "foveation_descriptor P wc (W, H) False (mx, my) = Inl (Fatal ''malloc failed'')
       \<and> (\<exists>c0 c1 c2.
             foveation_descriptor P wc (W, H) True (mx, my)
               = Inr ([c0, c1, Finite c2, Finite 20], wc\<lparr>mouse_x := mx, mouse_y := my\<rparr>)
             \<and> approximates_quotient c0 mx W
             \<and> approximates_quotient c1 my H
             \<and> \<bar>c2 - 3 / 10\<bar> \<le> (3 / 10) / 2 ^ 23
             \<and> (0 \<le> mx \<and> mx \<le> W \<and> 0 < W \<longrightarrow> (\<exists>fx. c0 = Finite fx \<and> 0 \<le> fx \<and> fx \<le> 1))
             \<and> (0 \<le> my \<and> my \<le> H \<and> 0 < H \<longrightarrow> (\<exists>fy. c1 = Finite fy \<and> 0 \<le> fy \<and> fy \<le> 1)))"
proof -
  let ?c0 = "float_div P (float_of_int P mx) (float_of_int P W)"
  let ?c1 = "float_div P (float_of_int P my) (float_of_int P H)"
  let ?c2 = "float_of_double_const P (3 / 10)"
  have fail: "foveation_descriptor P wc (W, H) False (mx, my) = Inl (Fatal ''malloc failed'')"
    by (simp add: foveation_descriptor_def pexit_def)
  have ret: "foveation_descriptor P wc (W, H) True (mx, my)
      = Inr ([?c0, ?c1, Finite ?c2, Finite 20], wc\<lparr>mouse_x := mx, mouse_y := my\<rparr>)"
    using assms(4) by (simp add: foveation_descriptor_def Let_def float_of_int_def)
  have q0: "approximates_quotient ?c0 mx W"
    by (rule float_div_approximates [OF assms(5) assms(2) assms(7) assms(9)])
  have q1: "approximates_quotient ?c1 my H"
    by (rule float_div_approximates [OF assms(5) assms(2) assms(8) assms(10)])
  have c2: "\<bar>?c2 - 3 / 10\<bar> \<le> (3 / 10) / 2 ^ 23"
    by (rule float_of_double_const_near [OF assms(5) assms(6)])
  have x: "0 \<le> mx \<and> mx \<le> W \<and> 0 < W \<longrightarrow> (\<exists>fx. ?c0 = Finite fx \<and> 0 \<le> fx \<and> fx \<le> 1)"
    using rounded_quotient_in_unit_interval [OF assms(1,2,3), of mx W] by blast
  have y: "0 \<le> my \<and> my \<le> H \<and> 0 < H \<longrightarrow> (\<exists>fy. ?c1 = Finite fy \<and> 0 \<le> fy \<and> fy \<le> 1)"
    using rounded_quotient_in_unit_interval [OF assms(1,2,3), of my H] by blast
  from ret q0 q1 c2 x y have "\<exists>c0 c1 c2.
             foveation_descriptor P wc (W, H) True (mx, my)
               = Inr ([c0, c1, Finite c2, Finite 20], wc\<lparr>mouse_x := mx, mouse_y := my\<rparr>)
             \<and> approximates_quotient c0 mx W
             \<and> approximates_quotient c1 my H
             \<and> \<bar>c2 - 3 / 10\<bar> \<le> (3 / 10) / 2 ^ 23
             \<and> (0 \<le> mx \<and> mx \<le> W \<and> 0 < W \<longrightarrow> (\<exists>fx. c0 = Finite fx \<and> 0 \<le> fx \<and> fx \<le> 1))
             \<and> (0 \<le> my \<and> my \<le> H \<and> 0 < H \<longrightarrow> (\<exists>fy. c1 = Finite fy \<and> 0 \<le> fy \<and> fy \<le> 1))"
    by blast
  with fail show ?thesis by blast
qed

text \<open>
  On Linux/x86-64, with the pointer at \<open>(200, 600)\<close> in a window of 800 by 600,
  the block is \<open>(0.25, 1, 0.300000011920928955078125, 20)\<close>: the third float
  is the \<^verbatim>\<open>float\<close> nearest to the \<^verbatim>\<open>double\<close> nearest to \<open>0.3\<close>.
\<close>

theorem fallback_descriptor_values_witness:
  "foveation_descriptor linux_amd64 \<lparr>mouse_x = 0, mouse_y = 0\<rparr> (800, 600) True (200, 600)
     = Inr ([Finite (1 / 4), Finite 1, Finite (5033165 / 16777216), Finite 20],
            \<lparr>mouse_x = 200, mouse_y = 600\<rparr>)
   \<and> foveation_descriptor linux_amd64 \<lparr>mouse_x = 0, mouse_y = 0\<rparr> (800, 600) False (200, 600)
     = Inl (Fatal ''malloc failed'')
   \<and> approximates_quotient (Finite (1 / 4)) 200 800
   \<and> approximates_quotient (Finite 1) 600 600
   \<and> \<bar>5033165 / 16777216 - 3 / 10 :: real\<bar> \<le> (3 / 10) / 2 ^ 23"
proof -
  have p: "fround linux_amd64 = round_to_bits 24" "dround linux_amd64 = round_to_bits 53"
    by (simp_all add: linux_amd64_def)
  have m: "mono (fround linux_amd64)"
    unfolding p by (rule round_to_bits_mono) simp
  have z: "fround linux_amd64 0 = 0" and o: "fround linux_amd64 1 = 1"
    and t: "fround linux_amd64 20 = 20"
    by (simp_all add: p rounding_exact)
  have acc: "\<forall>x. 1 / 2 ^ 32 \<le> \<bar>x\<bar> \<and> \<bar>x\<bar> \<le> 2 ^ 32
      \<longrightarrow> \<bar>fround linux_amd64 x - x\<bar> \<le> \<bar>x\<bar> / 2 ^ 24"
    unfolding p using round_to_bits_error [of 24] by simp
  have dacc: "\<bar>dround linux_amd64 (3 / 10) - 3 / 10\<bar> \<le> (3 / 10) / 2 ^ 53"
    unfolding p using round_to_bits_error [of 53 "3 / 10"] by simp
  have r: "(\<bar>200\<bar> :: int) \<le> 2 ^ 31" "(\<bar>600\<bar> :: int) \<le> 2 ^ 31" "(\<bar>800\<bar> :: int) \<le> 2 ^ 31"
    by simp_all
  have d: "float_div linux_amd64 (float_of_int linux_amd64 200) (float_of_int linux_amd64 800)
             = Finite (1 / 4)"
    "float_div linux_amd64 (float_of_int linux_amd64 600) (float_of_int linux_amd64 600)
             = Finite 1"
    "float_of_int linux_amd64 20 = 20"
    by (simp_all add: float_div_def float_of_int_def p rounding_exact)
  have c: "float_of_double_const linux_amd64 (3 / 10) = 5033165 / 16777216"
    by (simp add: float_of_double_const_def p double_of_three_tenths
          float_of_double_of_three_tenths)
  have run: "foveation_descriptor linux_amd64 \<lparr>mouse_x = 0, mouse_y = 0\<rparr> (800, 600) True
        (200, 600)
     = Inr ([Finite (1 / 4), Finite 1, Finite (5033165 / 16777216), Finite 20],
            \<lparr>mouse_x = 200, mouse_y = 600\<rparr>)"
    by (simp add: foveation_descriptor_def Let_def d c)
  from fallback_descriptor_values
      [OF m z o t acc dacc r(1) r(2) r(3) r(2), of "\<lparr>mouse_x = 0, mouse_y = 0\<rparr>"]
  show ?thesis
    unfolding run by (simp add: approximates_quotient_def)
qed

end
